theory Spec2Isabelle
  imports Main "HOL-Library.Word"
begin

section \<open>The connection registry of the chat server (src/server/server.c)\<close>

text \<open>
  The server keeps its connections in the global array
  \<^verbatim>\<open>int client_sockets[MAX_CLIENTS] = {0}\<close>, guarded by the global mutex
  \<^verbatim>\<open>clients_mutex\<close>. A socket is a C \<^verbatim>\<open>int\<close>: a 32-bit word. The value 0 marks
  a free slot.

  The global state of the server is the array together with the trace of the effects the
  code has on the outside: acquiring and releasing the mutex, and the \<^verbatim>\<open>send\<close> calls on
  sockets. Every C function below is a transformer of that state. Diagnostic output
  (\<^verbatim>\<open>printf\<close>, \<^verbatim>\<open>perror\<close>) is not part of the model.
\<close>

type_synonym c_int = "32 word"

definition MAX_CLIENTS :: nat where
  "MAX_CLIENTS = 10"

definition BUFFER_SIZE :: nat where
  "BUFFER_SIZE = 1024"

datatype event =
    Lock
  | Unlock
  | Send c_int string
  | Close c_int

record server =
  client_sockets :: "c_int list"
  events :: "event list"

definition emit :: "event \<Rightarrow> server \<Rightarrow> server" where
  "emit e s = s\<lparr>events := events s @ [e]\<rparr>"

text \<open>The state at program start: ten free slots, nothing done yet.\<close>

definition initial_server :: server where
  "initial_server = \<lparr>client_sockets = replicate MAX_CLIENTS 0, events = []\<rparr>"

text \<open>
  \<^verbatim>\<open>for (int i = 0; i < MAX_CLIENTS; i++) if (client_sockets[i] == 0) { client_sockets[i] = new_socket; break; }\<close>
\<close>

function add_client_loop :: "nat \<Rightarrow> c_int \<Rightarrow> server \<Rightarrow> server" where
  "add_client_loop i new_socket s =
     (if i < MAX_CLIENTS then
        (if client_sockets s ! i = 0
         then s\<lparr>client_sockets := (client_sockets s)[i := new_socket]\<rparr>
         else add_client_loop (Suc i) new_socket s)
      else s)"
  by pat_completeness auto
termination
  by (relation "measure (\<lambda>(i, _, _). MAX_CLIENTS - i)") auto

declare add_client_loop.simps [simp del]

definition add_client :: "c_int \<Rightarrow> server \<Rightarrow> server" where
  "add_client new_socket s = emit Unlock (add_client_loop 0 new_socket (emit Lock s))"

text \<open>
  \<^verbatim>\<open>for (int i = 0; i < MAX_CLIENTS; i++) if (client_sockets[i] == socket) { client_sockets[i] = 0; break; }\<close>
\<close>

function remove_client_loop :: "nat \<Rightarrow> c_int \<Rightarrow> server \<Rightarrow> server" where
  "remove_client_loop i socket s =
     (if i < MAX_CLIENTS then
        (if client_sockets s ! i = socket
         then s\<lparr>client_sockets := (client_sockets s)[i := 0]\<rparr>
         else remove_client_loop (Suc i) socket s)
      else s)"
  by pat_completeness auto
termination
  by (relation "measure (\<lambda>(i, _, _). MAX_CLIENTS - i)") auto

declare remove_client_loop.simps [simp del]

definition remove_client :: "c_int \<Rightarrow> server \<Rightarrow> server" where
  "remove_client socket s = emit Unlock (remove_client_loop 0 socket (emit Lock s))"

text \<open>
  \<^verbatim>\<open>for (int i = 0; i < MAX_CLIENTS; i++)
     if (client_sockets[i] != 0 && client_sockets[i] != sender_socket)
       send(client_sockets[i], message, strlen(message), 0);\<close>
  The message is a C string; \<open>message\<close> is its content, the bytes before the
  terminating NUL, so \<^verbatim>\<open>strlen(message)\<close> bytes are all of it.
\<close>

function broadcast_loop :: "nat \<Rightarrow> c_int \<Rightarrow> string \<Rightarrow> server \<Rightarrow> server" where
  "broadcast_loop i sender_socket message s =
     (if i < MAX_CLIENTS then
        (if client_sockets s ! i \<noteq> 0 \<and> client_sockets s ! i \<noteq> sender_socket
         then broadcast_loop (Suc i) sender_socket message
                (emit (Send (client_sockets s ! i) message) s)
         else broadcast_loop (Suc i) sender_socket message s)
      else s)"
  by pat_completeness auto
termination
  by (relation "measure (\<lambda>(i, _, _, _). MAX_CLIENTS - i)") auto

declare broadcast_loop.simps [simp del]

definition broadcast_message :: "c_int \<Rightarrow> string \<Rightarrow> server \<Rightarrow> server" where
  "broadcast_message sender_socket message s =
     emit Unlock (broadcast_loop 0 sender_socket message (emit Lock s))"

subsection \<open>Sequences of registry operations\<close>

text \<open>
  The three functions are the only code that touches the array, and each runs under the
  mutex from its first to its last access, so any run of the server's threads acts on the
  registry as some sequence of these calls.
\<close>

datatype action =
    Add c_int
  | Remove c_int
  | Broadcast c_int string

fun step :: "server \<Rightarrow> action \<Rightarrow> server" where
  "step s (Add h) = add_client h s"
| "step s (Remove h) = remove_client h s"
| "step s (Broadcast h m) = broadcast_message h m s"

definition exec :: "action list \<Rightarrow> server \<Rightarrow> server" where
  "exec acts s = foldl step s acts"

definition run :: "action list \<Rightarrow> server" where
  "run acts = exec acts initial_server"

text \<open>
  The code has no snapshot function of its own: the handles a broadcast from \<open>excluding\<close>
  writes to are the members it sees, in slot order.
\<close>

fun send_targets :: "event list \<Rightarrow> c_int list" where
  "send_targets [] = []"
| "send_targets (Send h m # es) = h # send_targets es"
| "send_targets (e # es) = send_targets es"

definition snapshot :: "c_int \<Rightarrow> server \<Rightarrow> c_int list" where
  "snapshot excluding s =
     send_targets (events (broadcast_message excluding [] (s\<lparr>events := []\<rparr>)))"

subsection \<open>Holding the mutex\<close>

text \<open>
  Whether the mutex is held when a write happens is read off the trace: \<open>held\<close> is the
  state of the mutex before the first event.
\<close>

fun sends_locked :: "bool \<Rightarrow> event list \<Rightarrow> bool" where
  "sends_locked held [] = True"
| "sends_locked held (Lock # es) = sends_locked True es"
| "sends_locked held (Unlock # es) = sends_locked False es"
| "sends_locked held (Send h m # es) = (held \<and> sends_locked held es)"
| "sends_locked held (Close h # es) = sends_locked held es"

fun sends_unlocked :: "bool \<Rightarrow> event list \<Rightarrow> bool" where
  "sends_unlocked held [] = True"
| "sends_unlocked held (Lock # es) = sends_unlocked True es"
| "sends_unlocked held (Unlock # es) = sends_unlocked False es"
| "sends_unlocked held (Send h m # es) = (\<not> held \<and> sends_unlocked held es)"
| "sends_unlocked held (Close h # es) = sends_unlocked held es"

fun received_by :: "c_int \<Rightarrow> event list \<Rightarrow> string list" where
  "received_by h [] = []"
| "received_by h (Send t m # es) = (if t = h then m # received_by h es else received_by h es)"
| "received_by h (e # es) = received_by h es"

section \<open>A session of the server (handle_client)\<close>

text \<open>
  \<^verbatim>\<open>typedef struct { int sock; int client_id; } client_info_t;\<close> (src/client/client.h)
\<close>

record client_info_t =
  sock :: c_int
  client_id :: c_int

abbreviation NUL :: char where
  "NUL \<equiv> CHR 0x00"

abbreviation newline :: char where
  "newline \<equiv> CHR 0x0A"

text \<open>
  A char array holds a C string: the bytes before its first NUL. \<^verbatim>\<open>strlen\<close> is its length.
\<close>

definition cstring :: "string \<Rightarrow> string" where
  "cstring buf = takeWhile (\<lambda>c. c \<noteq> NUL) buf"

definition strlen :: "string \<Rightarrow> nat" where
  "strlen buf = length (cstring buf)"

text \<open>
  The identity: \<^verbatim>\<open>srand(time(NULL)); client_info->client_id = rand();\<close>.
  The generator belongs to the C library and there is one for the whole process; the
  threads of the sessions call it without taking the mutex, so the calls of two sessions
  can come in any order. Each call is one step on the shared state of the generator:
  \<open>Srand t now\<close> is the call of \<^verbatim>\<open>srand\<close> by the session with socket \<open>t\<close> when
  \<^verbatim>\<open>time(NULL)\<close> is \<open>now\<close> (in seconds; \<^verbatim>\<open>srand\<close> takes an \<^verbatim>\<open>unsigned int\<close>, so the
  time is cut to 32 bits), \<open>Rand t\<close> is its call of \<^verbatim>\<open>rand\<close>, whose result becomes its
  \<open>client_id\<close>.

  The generator itself is a parameter: \<open>srand\<close> gives the state after seeding (it depends
  on the seed alone, as the C standard requires), \<open>rand\<close> draws a number from a state and
  gives the next state.
\<close>

datatype lib_call =
    Srand c_int int
  | Rand c_int

record 'g identities =
  generator :: 'g
  client_ids :: "c_int \<rightharpoonup> c_int"

fun lib_step ::
  "(32 word \<Rightarrow> 'g) \<Rightarrow> ('g \<Rightarrow> c_int \<times> 'g) \<Rightarrow> 'g identities \<Rightarrow> lib_call \<Rightarrow> 'g identities" where
  "lib_step srand rand st (Srand t now) = st\<lparr>generator := srand (word_of_int now)\<rparr>"
| "lib_step srand rand st (Rand t) =
     (let (r, g) = rand (generator st)
      in st\<lparr>generator := g, client_ids := (client_ids st)(t \<mapsto> r)\<rparr>)"

definition lib_run ::
  "(32 word \<Rightarrow> 'g) \<Rightarrow> ('g \<Rightarrow> c_int \<times> 'g) \<Rightarrow> lib_call list \<Rightarrow> 'g identities \<Rightarrow> 'g identities" where
  "lib_run srand rand calls st = foldl (lib_step srand rand) st calls"

text \<open>The two calls of one session, in the order of the program.\<close>

definition identity_calls :: "c_int \<Rightarrow> int \<Rightarrow> lib_call list" where
  "identity_calls new_socket now = [Srand new_socket now, Rand new_socket]"

text \<open>
  A generator to run the calls on: the sample implementation of \<^verbatim>\<open>srand\<close> and
  \<^verbatim>\<open>rand\<close> that the C standard gives, on a 32-bit state.
\<close>

definition sample_srand :: "32 word \<Rightarrow> 32 word" where
  "sample_srand seed = seed"

definition sample_rand :: "32 word \<Rightarrow> c_int \<times> 32 word" where
  "sample_rand g = (let n = g * 1103515245 + 12345 in ((n div 65536) mod 32768, n))"

text \<open>
  One \<^verbatim>\<open>read(new_socket, buffer, BUFFER_SIZE)\<close> either fails or delivers bytes (none at
  the end of the stream, never more than \<open>BUFFER_SIZE\<close>). The buffer was zeroed by
  \<^verbatim>\<open>memset\<close> just before.
\<close>

datatype incoming =
    Failed
  | Delivered string

fun valread :: "incoming \<Rightarrow> int" where
  "valread Failed = - 1"
| "valread (Delivered d) = int (length (take BUFFER_SIZE d))"

fun buffer_after :: "incoming \<Rightarrow> string" where
  "buffer_after Failed = replicate BUFFER_SIZE NUL"
| "buffer_after (Delivered d) = take BUFFER_SIZE d @ replicate (BUFFER_SIZE - length d) NUL"

text \<open>The conversion \<^verbatim>\<open>%d\<close> of the C library: decimal digits, with a minus sign.\<close>

definition digit_char :: "nat \<Rightarrow> char" where
  "digit_char d = ''0123456789'' ! (d mod 10)"

function digits :: "nat \<Rightarrow> string" where
  "digits n = (if n < 10 then [digit_char n] else digits (n div 10) @ [digit_char (n mod 10)])"
  by pat_completeness auto
termination
  by (relation "measure id") auto

declare digits.simps [simp del]

definition show_int :: "int \<Rightarrow> string" where
  "show_int i = (if i < 0 then CHR ''-'' # digits (nat (- i)) else digits (nat i))"

text \<open>
  \<^verbatim>\<open>char message_with_id[BUFFER_SIZE + 50];
  snprintf(message_with_id, sizeof(message_with_id), "[Client %d]: %s", client_info->client_id, buffer);\<close>
  The result is cut to fit the array with its terminator. \<^verbatim>\<open>%s\<close> reads \<open>buffer\<close> up to
  its first NUL; a buffer without one (a read that filled all \<open>BUFFER_SIZE\<close> bytes) is
  read past its end, which C leaves undefined: \<open>None\<close>.
\<close>

definition snprintf_message :: "c_int \<Rightarrow> string \<Rightarrow> string option" where
  "snprintf_message cid buffer =
     (if NUL \<in> set buffer
      then Some (take (BUFFER_SIZE + 50 - 1)
                   (''[Client '' @ show_int (sint cid) @ '']: '' @ cstring buffer))
      else None)"

text \<open>
  The session, once \<open>client_info\<close> is allocated and filled: it registers its socket, then
  reads until a read returns nothing or fails, broadcasting what each read delivered, and
  removes its socket at the end. Its result is the sequence of its calls on the registry for
  the given reads (an empty list of reads left: the session is blocked in \<^verbatim>\<open>read\<close>);
  \<open>None\<close> when it has run into undefined behaviour. The session closes its socket and
  frees its memory after the last call; neither touches the registry.
\<close>

fun read_loop :: "client_info_t \<Rightarrow> incoming list \<Rightarrow> action list option" where
  "read_loop ci [] = Some []"
| "read_loop ci (r # rs) =
     (if valread r \<le> 0 then Some [Remove (sock ci)]
      else (case snprintf_message (client_id ci) (buffer_after r) of
              None \<Rightarrow> None
            | Some message_with_id \<Rightarrow>
                map_option (Cons (Broadcast (sock ci) message_with_id)) (read_loop ci rs)))"

definition handle_client :: "client_info_t \<Rightarrow> incoming list \<Rightarrow> action list option" where
  "handle_client ci reads = map_option (Cons (Add (sock ci))) (read_loop ci reads)"

section \<open>The send loop of the client (start_client, src/client/client.c)\<close>

text \<open>
  \<^verbatim>\<open>fgets(buffer, BUFFER_SIZE, stdin)\<close> reads at most \<open>BUFFER_SIZE - 1\<close> bytes of the
  input, stops after a newline, and stores them with a terminating NUL; at the end of the
  input it stores nothing. \<open>inp\<close> is what is left of the standard input.
\<close>

fun fgets_scan :: "nat \<Rightarrow> string \<Rightarrow> string \<times> string" where
  "fgets_scan 0 inp = ([], inp)"
| "fgets_scan (Suc n) [] = ([], [])"
| "fgets_scan (Suc n) (c # cs) =
     (if c = newline then ([c], cs)
      else (let (l, rest) = fgets_scan n cs in (c # l, rest)))"

definition fgets :: "string \<Rightarrow> nat \<Rightarrow> string \<Rightarrow> string \<times> string" where
  "fgets buffer n inp =
     (if inp = [] then (buffer, inp)
      else (let (l, rest) = fgets_scan (n - 1) inp
            in (l @ NUL # drop (Suc (length l)) buffer, rest)))"

text \<open>
  \<^verbatim>\<open>strcspn(s, reject)\<close>: the length of the longest prefix of the C string \<open>s\<close> without a
  byte of \<open>reject\<close>.
\<close>

definition strcspn :: "string \<Rightarrow> string \<Rightarrow> nat" where
  "strcspn s reject = length (takeWhile (\<lambda>c. c \<notin> set reject) (cstring s))"

text \<open>
  One turn of \<^verbatim>\<open>while (1)\<close>:
  \<^verbatim>\<open>memset(buffer, 0, BUFFER_SIZE); fgets(buffer, BUFFER_SIZE, stdin);
  buffer[strcspn(buffer, "\n")] = '\0';
  if (strcmp(buffer, "exit") == 0) break;
  send(sock, buffer, strlen(buffer), 0);\<close>
  \<open>None\<close> is the \<^verbatim>\<open>break\<close>; otherwise the turn gives its write and the input left.
\<close>

definition send_turn :: "c_int \<Rightarrow> string \<Rightarrow> (event \<times> string) option" where
  "send_turn fd inp =
     (let buffer0 = replicate BUFFER_SIZE NUL;
          (buffer1, rest) = fgets buffer0 BUFFER_SIZE inp;
          buffer = buffer1[strcspn buffer1 [newline] := NUL]
      in if cstring buffer = ''exit'' then None
         else Some (Send fd (take (strlen buffer) buffer), rest))"

text \<open>
  The loop, then \<^verbatim>\<open>close(sock)\<close>. At the end of the input \<^verbatim>\<open>fgets\<close> stores nothing,
  the zeroed buffer is not \<^verbatim>\<open>"exit"\<close>, and the loop never ends: the result is \<open>None\<close>.
\<close>

partial_function (option) send_loop :: "c_int \<Rightarrow> string \<Rightarrow> event list \<Rightarrow> event list option" where
  "send_loop fd inp sent =
     (case send_turn fd inp of
        None \<Rightarrow> Some (sent @ [Close fd])
      | Some (e, rest) \<Rightarrow> send_loop fd rest (sent @ [e]))"

section \<open>What the specification says of the registry\<close>

text \<open>
  The registry as the specification describes it, to compare the array with: a set of
  handles. \<open>Add\<close> registers a handle and does nothing at capacity, \<open>Remove\<close>
  deregisters it, a broadcast changes nothing.
\<close>

fun spec_step :: "c_int set \<Rightarrow> action \<Rightarrow> c_int set" where
  "spec_step S (Add h) = (if card S < MAX_CLIENTS then insert h S else S)"
| "spec_step S (Remove h) = S - {h}"
| "spec_step S (Broadcast h m) = S"

definition spec_members :: "action list \<Rightarrow> c_int set" where
  "spec_members acts = foldl spec_step {} acts"

text \<open>
  The sequences in which every \<open>Add\<close> is of a handle other than 0 that is not registered at
  that moment, as the handles of the server are: a session adds its own open socket, once.
\<close>

fun fresh_adds :: "c_int set \<Rightarrow> action list \<Rightarrow> bool" where
  "fresh_adds S [] = True"
| "fresh_adds S (Add h # acts) = (h \<noteq> 0 \<and> h \<notin> S \<and> fresh_adds (spec_step S (Add h)) acts)"
| "fresh_adds S (a # acts) = fresh_adds (spec_step S a) acts"

text \<open>Stripping the trailing newline, as the specification words it.\<close>

definition strip_newline :: "string \<Rightarrow> string" where
  "strip_newline l = (if l \<noteq> [] \<and> last l = newline then butlast l else l)"

section \<open>The loops, slot by slot\<close>

text \<open>
  Each loop scans the slots from the left; on a well-formed array (exactly \<open>MAX_CLIENTS\<close>
  slots) it does what the following list functions do.
\<close>

fun fill_first_free :: "c_int \<Rightarrow> c_int list \<Rightarrow> c_int list" where
  "fill_first_free h [] = []"
| "fill_first_free h (x # xs) = (if x = 0 then h # xs else x # fill_first_free h xs)"

fun clear_first :: "c_int \<Rightarrow> c_int list \<Rightarrow> c_int list" where
  "clear_first h [] = []"
| "clear_first h (x # xs) = (if x = h then 0 # xs else x # clear_first h xs)"

definition receivers :: "c_int \<Rightarrow> c_int list \<Rightarrow> c_int list" where
  "receivers sender cs = filter (\<lambda>x. x \<noteq> 0 \<and> x \<noteq> sender) cs"

text \<open>
  The array represents the set \<open>S\<close>: ten slots, no handle other than 0 in two of them, and
  the handles other than 0 are those of \<open>S\<close>.
\<close>

definition reg_inv :: "c_int set \<Rightarrow> server \<Rightarrow> bool" where
  "reg_inv S s \<longleftrightarrow> length (client_sockets s) = MAX_CLIENTS \<and>
     distinct (filter (\<lambda>x. x \<noteq> 0) (client_sockets s)) \<and>
     {x \<in> set (client_sockets s). x \<noteq> 0} = S"

lemma length_fill_first_free [simp]: "length (fill_first_free h cs) = length cs"
  by (induction cs) auto

lemma length_clear_first [simp]: "length (clear_first h cs) = length cs"
  by (induction cs) auto

lemma add_client_loop_done: "\<not> i < MAX_CLIENTS \<Longrightarrow> add_client_loop i h s = s"
  by (subst add_client_loop.simps) simp

lemma add_client_loop_hit:
  "i < MAX_CLIENTS \<Longrightarrow> client_sockets s ! i = 0 \<Longrightarrow>
   add_client_loop i h s = s\<lparr>client_sockets := (client_sockets s)[i := h]\<rparr>"
  by (subst add_client_loop.simps) simp

lemma add_client_loop_skip:
  "i < MAX_CLIENTS \<Longrightarrow> client_sockets s ! i \<noteq> 0 \<Longrightarrow>
   add_client_loop i h s = add_client_loop (Suc i) h s"
  by (subst add_client_loop.simps) simp

lemma add_client_loop_eq:
  "length (client_sockets s) = MAX_CLIENTS \<Longrightarrow> i \<le> MAX_CLIENTS \<Longrightarrow>
   add_client_loop i h s =
     s\<lparr>client_sockets := take i (client_sockets s) @ fill_first_free h (drop i (client_sockets s))\<rparr>"
proof (induction i h s rule: add_client_loop.induct)
  case (1 i h s)
  let ?cs = "client_sockets s"
  show ?case
  proof (cases "i < MAX_CLIENTS")
    case False
    with "1.prems" show ?thesis
      by (simp add: add_client_loop_done)
  next
    case True
    with "1.prems" have d: "drop i ?cs = ?cs ! i # drop (Suc i) ?cs"
      by (simp add: Cons_nth_drop_Suc)
    show ?thesis
    proof (cases "?cs ! i = 0")
      case True
      with \<open>i < MAX_CLIENTS\<close> "1.prems" d show ?thesis
        by (simp add: add_client_loop_hit upd_conv_take_nth_drop)
    next
      case False
      with \<open>i < MAX_CLIENTS\<close> "1.prems" have
        "add_client_loop (Suc i) h s =
           s\<lparr>client_sockets := take (Suc i) ?cs @ fill_first_free h (drop (Suc i) ?cs)\<rparr>"
        by (intro "1.IH") simp_all
      with False \<open>i < MAX_CLIENTS\<close> "1.prems" d show ?thesis
        by (simp add: add_client_loop_skip take_Suc_conv_app_nth)
    qed
  qed
qed

lemma remove_client_loop_done: "\<not> i < MAX_CLIENTS \<Longrightarrow> remove_client_loop i h s = s"
  by (subst remove_client_loop.simps) simp

lemma remove_client_loop_hit:
  "i < MAX_CLIENTS \<Longrightarrow> client_sockets s ! i = h \<Longrightarrow>
   remove_client_loop i h s = s\<lparr>client_sockets := (client_sockets s)[i := 0]\<rparr>"
  by (subst remove_client_loop.simps) simp

lemma remove_client_loop_skip:
  "i < MAX_CLIENTS \<Longrightarrow> client_sockets s ! i \<noteq> h \<Longrightarrow>
   remove_client_loop i h s = remove_client_loop (Suc i) h s"
  by (subst remove_client_loop.simps) simp

lemma remove_client_loop_eq:
  "length (client_sockets s) = MAX_CLIENTS \<Longrightarrow> i \<le> MAX_CLIENTS \<Longrightarrow>
   remove_client_loop i h s =
     s\<lparr>client_sockets := take i (client_sockets s) @ clear_first h (drop i (client_sockets s))\<rparr>"
proof (induction i h s rule: remove_client_loop.induct)
  case (1 i h s)
  let ?cs = "client_sockets s"
  show ?case
  proof (cases "i < MAX_CLIENTS")
    case False
    with "1.prems" show ?thesis
      by (simp add: remove_client_loop_done)
  next
    case True
    with "1.prems" have d: "drop i ?cs = ?cs ! i # drop (Suc i) ?cs"
      by (simp add: Cons_nth_drop_Suc)
    show ?thesis
    proof (cases "?cs ! i = h")
      case True
      with \<open>i < MAX_CLIENTS\<close> "1.prems" d show ?thesis
        by (simp add: remove_client_loop_hit upd_conv_take_nth_drop)
    next
      case False
      with \<open>i < MAX_CLIENTS\<close> "1.prems" have
        "remove_client_loop (Suc i) h s =
           s\<lparr>client_sockets := take (Suc i) ?cs @ clear_first h (drop (Suc i) ?cs)\<rparr>"
        by (intro "1.IH") simp_all
      with False \<open>i < MAX_CLIENTS\<close> "1.prems" d show ?thesis
        by (simp add: remove_client_loop_skip take_Suc_conv_app_nth)
    qed
  qed
qed

lemma broadcast_loop_done: "\<not> i < MAX_CLIENTS \<Longrightarrow> broadcast_loop i h m s = s"
  by (subst broadcast_loop.simps) simp

lemma broadcast_loop_hit:
  "i < MAX_CLIENTS \<Longrightarrow> client_sockets s ! i \<noteq> 0 \<Longrightarrow> client_sockets s ! i \<noteq> h \<Longrightarrow>
   broadcast_loop i h m s = broadcast_loop (Suc i) h m (emit (Send (client_sockets s ! i) m) s)"
  by (subst broadcast_loop.simps) simp

lemma broadcast_loop_skip:
  "i < MAX_CLIENTS \<Longrightarrow> client_sockets s ! i = 0 \<or> client_sockets s ! i = h \<Longrightarrow>
   broadcast_loop i h m s = broadcast_loop (Suc i) h m s"
  by (subst broadcast_loop.simps) auto

lemma client_sockets_emit [simp]: "client_sockets (emit e s) = client_sockets s"
  by (simp add: emit_def)

lemma events_emit [simp]: "events (emit e s) = events s @ [e]"
  by (simp add: emit_def)

lemma broadcast_loop_eq:
  "length (client_sockets s) = MAX_CLIENTS \<Longrightarrow> i \<le> MAX_CLIENTS \<Longrightarrow>
   broadcast_loop i h m s =
     s\<lparr>events := events s @ map (\<lambda>t. Send t m) (receivers h (drop i (client_sockets s)))\<rparr>"
proof (induction i h m s rule: broadcast_loop.induct)
  case (1 i h m s)
  let ?cs = "client_sockets s"
  show ?case
  proof (cases "i < MAX_CLIENTS")
    case False
    with "1.prems" show ?thesis
      by (simp add: broadcast_loop_done receivers_def)
  next
    case True
    with "1.prems" have d: "drop i ?cs = ?cs ! i # drop (Suc i) ?cs"
      by (simp add: Cons_nth_drop_Suc)
    show ?thesis
    proof (cases "?cs ! i \<noteq> 0 \<and> ?cs ! i \<noteq> h")
      case True
      let ?s' = "emit (Send (?cs ! i) m) s"
      from True \<open>i < MAX_CLIENTS\<close> "1.prems" have
        "broadcast_loop (Suc i) h m ?s' =
           ?s'\<lparr>events := events ?s' @
                  map (\<lambda>t. Send t m) (receivers h (drop (Suc i) (client_sockets ?s')))\<rparr>"
        by (intro "1.IH"(1)) simp_all
      with True \<open>i < MAX_CLIENTS\<close> d show ?thesis
        by (simp add: broadcast_loop_hit receivers_def emit_def)
    next
      case False
      with \<open>i < MAX_CLIENTS\<close> "1.prems" have
        "broadcast_loop (Suc i) h m s =
           s\<lparr>events := events s @ map (\<lambda>t. Send t m) (receivers h (drop (Suc i) ?cs))\<rparr>"
        by (intro "1.IH"(2)) simp_all
      with False \<open>i < MAX_CLIENTS\<close> d show ?thesis
        by (auto simp: broadcast_loop_skip receivers_def)
    qed
  qed
qed

text \<open>The three functions on a well-formed array.\<close>

lemma add_client_eq:
  "length (client_sockets s) = MAX_CLIENTS \<Longrightarrow>
   add_client h s =
     \<lparr>client_sockets = fill_first_free h (client_sockets s),
      events = events s @ [Lock, Unlock]\<rparr>"
  by (simp add: add_client_def add_client_loop_eq emit_def)

lemma remove_client_eq:
  "length (client_sockets s) = MAX_CLIENTS \<Longrightarrow>
   remove_client h s =
     \<lparr>client_sockets = clear_first h (client_sockets s),
      events = events s @ [Lock, Unlock]\<rparr>"
  by (simp add: remove_client_def remove_client_loop_eq emit_def)

lemma broadcast_message_eq:
  "length (client_sockets s) = MAX_CLIENTS \<Longrightarrow>
   broadcast_message h m s =
     \<lparr>client_sockets = client_sockets s,
      events = events s @ Lock # map (\<lambda>t. Send t m) (receivers h (client_sockets s)) @ [Unlock]\<rparr>"
  by (simp add: broadcast_message_def broadcast_loop_eq emit_def)

subsection \<open>What the operations do to the members\<close>

lemma fill_first_free_full: "0 \<notin> set cs \<Longrightarrow> fill_first_free h cs = cs"
  by (induction cs) auto

lemma fill_first_free_zero: "fill_first_free 0 cs = cs"
  by (induction cs) auto

lemma clear_first_absent: "h \<notin> set cs \<Longrightarrow> clear_first h cs = cs"
  by (induction cs) auto

lemma clear_first_zero: "clear_first 0 cs = cs"
  by (induction cs) auto

lemma set_fill_first_free:
  "0 \<in> set cs \<Longrightarrow> {x \<in> set (fill_first_free h cs). x \<noteq> 0} = {x \<in> insert h (set cs). x \<noteq> 0}"
  by (induction cs) auto

lemma members_fill_first_free:
  "0 \<in> set cs \<Longrightarrow> h \<noteq> 0 \<Longrightarrow>
   {x \<in> set (fill_first_free h cs). x \<noteq> 0} = insert h {x \<in> set cs. x \<noteq> 0}"
  by (induction cs) auto

lemma set_fill_first_free_subset: "set (fill_first_free h cs) \<subseteq> insert h (set cs)"
  by (induction cs) auto

lemma distinct_fill_first_free:
  "distinct (filter (\<lambda>x. x \<noteq> 0) cs) \<Longrightarrow> h \<notin> set cs \<Longrightarrow>
   distinct (filter (\<lambda>x. x \<noteq> 0) (fill_first_free h cs))"
  by (induction cs) (auto dest: subsetD [OF set_fill_first_free_subset])

lemma set_clear_first_subset: "set (clear_first h cs) \<subseteq> insert 0 (set cs)"
  by (induction cs) auto

lemma members_clear_first:
  "distinct (filter (\<lambda>x. x \<noteq> 0) cs) \<Longrightarrow>
   {x \<in> set (clear_first h cs). x \<noteq> 0} = {x \<in> set cs. x \<noteq> 0} - {h}"
proof (induction cs)
  case Nil
  then show ?case by simp
next
  case (Cons a cs)
  then have IH: "{x \<in> set (clear_first h cs). x \<noteq> 0} = {x \<in> set cs. x \<noteq> 0} - {h}"
    by (simp split: if_splits)
  show ?case
  proof (cases "a = h")
    case True
    with Cons.prems show ?thesis by (auto split: if_splits)
  next
    case False
    have "{x \<in> set (clear_first h (a # cs)). x \<noteq> 0} =
          {x \<in> {a}. x \<noteq> 0} \<union> {x \<in> set (clear_first h cs). x \<noteq> 0}"
      using False by auto
    also have "\<dots> = {x \<in> {a}. x \<noteq> 0} \<union> ({x \<in> set cs. x \<noteq> 0} - {h})"
      by (simp only: IH)
    also have "\<dots> = {x \<in> set (a # cs). x \<noteq> 0} - {h}"
      using False by auto
    finally show ?thesis .
  qed
qed

lemma distinct_clear_first:
  "distinct (filter (\<lambda>x. x \<noteq> 0) cs) \<Longrightarrow> distinct (filter (\<lambda>x. x \<noteq> 0) (clear_first h cs))"
proof (induction cs)
  case Nil
  then show ?case by simp
next
  case (Cons x cs)
  have "{x \<in> set (clear_first h cs). x \<noteq> 0} \<subseteq> {x \<in> set cs. x \<noteq> 0}"
    using Cons.prems by (subst members_clear_first) (auto split: if_splits)
  with Cons show ?case by (auto split: if_splits)
qed

lemma send_targets_sends [simp]: "send_targets (map (\<lambda>t. Send t m) ts @ es) = ts @ send_targets es"
  by (induction ts) auto

lemma snapshot_eq:
  "length (client_sockets s) = MAX_CLIENTS \<Longrightarrow> snapshot h s = receivers h (client_sockets s)"
  using send_targets_sends [of "[]" _ "[Unlock]"]
  by (simp add: snapshot_def broadcast_message_eq del: send_targets_sends)

lemma length_step:
  "length (client_sockets s) = MAX_CLIENTS \<Longrightarrow> length (client_sockets (step s a)) = MAX_CLIENTS"
  by (cases a) (simp_all add: add_client_eq remove_client_eq broadcast_message_eq)

lemma length_exec:
  "length (client_sockets s) = MAX_CLIENTS \<Longrightarrow> length (client_sockets (exec acts s)) = MAX_CLIENTS"
  unfolding exec_def by (induction acts arbitrary: s) (simp_all add: length_step)

lemma length_run: "length (client_sockets (run acts)) = MAX_CLIENTS"
  by (simp add: run_def length_exec initial_server_def)

lemma distinct_filter_conj:
  "distinct (filter P xs) \<Longrightarrow> distinct (filter (\<lambda>x. P x \<and> Q x) xs)"
  by (induction xs) (auto split: if_splits)

lemma reg_inv_card:
  assumes "reg_inv S s"
  shows "card S < MAX_CLIENTS \<longleftrightarrow> 0 \<in> set (client_sockets s)"
proof -
  let ?cs = "client_sockets s"
  from assms have "card S = length (filter (\<lambda>x. x \<noteq> 0) ?cs)"
    unfolding reg_inv_def using distinct_card [of "filter (\<lambda>x. x \<noteq> 0) ?cs"] by simp
  moreover have "length (filter (\<lambda>x. x \<noteq> 0) ?cs) < length ?cs \<longleftrightarrow> 0 \<in> set ?cs"
    by (metis (mono_tags, lifting) filter_True length_filter_le nat_less_le filter_id_conv length_filter_less)
  ultimately show ?thesis using assms by (simp add: reg_inv_def)
qed


lemma reg_inv_step:
  assumes inv: "reg_inv S s" and fresh: "fresh_adds S (a # acts)"
  shows "reg_inv (spec_step S a) (step s a)"
proof (cases a)
  case (Add h)
  from inv have len: "length (client_sockets s) = MAX_CLIENTS"
    and dis: "distinct (filter (\<lambda>x. x \<noteq> 0) (client_sockets s))"
    and mem: "{x \<in> set (client_sockets s). x \<noteq> 0} = S"
    by (simp_all add: reg_inv_def)
  from fresh Add have h: "h \<noteq> 0" "h \<notin> S" by simp_all
  with mem have notin: "h \<notin> set (client_sockets s)" by auto
  show ?thesis
  proof (cases "0 \<in> set (client_sockets s)")
    case True
    with inv have "card S < MAX_CLIENTS" by (simp add: reg_inv_card)
    with Add True len dis mem h notin show ?thesis
      by (simp add: reg_inv_def add_client_eq members_fill_first_free distinct_fill_first_free)
  next
    case False
    with inv have "\<not> card S < MAX_CLIENTS" by (simp add: reg_inv_card)
    with Add False len dis mem show ?thesis
      by (simp add: reg_inv_def add_client_eq fill_first_free_full)
  qed
next
  case (Remove h)
  with inv show ?thesis
    by (simp add: reg_inv_def remove_client_eq members_clear_first distinct_clear_first)
next
  case (Broadcast h m)
  with inv show ?thesis
    by (simp add: reg_inv_def broadcast_message_eq)
qed

lemma fresh_adds_tail: "fresh_adds S (a # acts) \<Longrightarrow> fresh_adds (spec_step S a) acts"
  by (cases a) simp_all

lemma reg_inv_exec:
  "reg_inv S s \<Longrightarrow> fresh_adds S acts \<Longrightarrow> reg_inv (foldl spec_step S acts) (exec acts s)"
  unfolding exec_def
proof (induction acts arbitrary: S s)
  case Nil
  then show ?case by simp
next
  case (Cons a acts)
  from Cons.prems have "reg_inv (spec_step S a) (step s a)"
    by (rule reg_inv_step)
  moreover from Cons.prems have "fresh_adds (spec_step S a) acts"
    by (simp add: fresh_adds_tail)
  ultimately show ?case using Cons.IH by simp
qed

lemma reg_inv_initial: "reg_inv {} initial_server"
  by (simp add: reg_inv_def initial_server_def)

lemma reg_inv_run: "fresh_adds {} acts \<Longrightarrow> reg_inv (spec_members acts) (run acts)"
  unfolding run_def spec_members_def by (rule reg_inv_exec [OF reg_inv_initial])

section \<open>The claims about the registry\<close>

text \<open>
  C1 (as amended). For every sequence of registry operations in which every \<open>Add\<close> is of a
  handle other than 0 that is not registered at that moment, and every handle \<open>h\<close>: the
  snapshot excluding \<open>h\<close> never contains \<open>h\<close>, it contains exactly the other handles that
  were added while a slot was free and were not removed since (\<open>Add\<close> on a full registry
  registers nothing), and it has no duplicate entries.
\<close>

theorem snapshot_exactly_members:
  assumes "fresh_adds {} acts"
  shows "h \<notin> set (snapshot h (run acts)) \<and>
         set (snapshot h (run acts)) = spec_members acts - {h} \<and>
         distinct (snapshot h (run acts))"
proof -
  let ?cs = "client_sockets (run acts)"
  from assms have inv: "reg_inv (spec_members acts) (run acts)"
    by (rule reg_inv_run)
  then have snap: "snapshot h (run acts) = receivers h ?cs"
    by (simp add: reg_inv_def snapshot_eq)
  from inv have "distinct (receivers h ?cs)"
    by (simp add: reg_inv_def receivers_def distinct_filter_conj)
  moreover from inv have "set (receivers h ?cs) = spec_members acts - {h}"
    unfolding receivers_def reg_inv_def by auto
  ultimately show ?thesis using snap by auto
qed

theorem snapshot_exactly_members_witness:
  "fresh_adds {} [Add 4, Add 5, Remove 4, Add 6] \<and>
   5 \<notin> set (snapshot 5 (run [Add 4, Add 5, Remove 4, Add 6])) \<and>
   set (snapshot 5 (run [Add 4, Add 5, Remove 4, Add 6])) = {6} \<and>
   distinct (snapshot 5 (run [Add 4, Add 5, Remove 4, Add 6]))"
proof -
  have f: "fresh_adds {} [Add 4, Add 5, Remove 4, Add 6]"
    by (simp add: MAX_CLIENTS_def)
  have m: "spec_members [Add 4, Add 5, Remove 4, Add 6] - {5} = {6}"
    by (auto simp: spec_members_def MAX_CLIENTS_def)
  from snapshot_exactly_members [OF f, of 5] f m show ?thesis by simp
qed


text \<open>
  Without the condition on \<open>Add\<close> the statement fails. \<^verbatim>\<open>add_client\<close> does not look
  for the handle in the array: adding 5 twice fills two slots, the snapshot lists 5 twice,
  and one \<open>Remove\<close> clears only the first of them. And 0 is the mark of a free slot:
  adding it registers nothing.
\<close>

theorem snapshot_duplicates_counterexample:
  "\<not> distinct (snapshot 7 (run [Add 5, Add 5])) \<and>
   5 \<in> set (snapshot 7 (run [Add 5, Add 5, Remove 5])) \<and>
   0 \<notin> set (snapshot 7 (run [Add 0]))"
  by code_simp

text \<open>
  C4. In every state of the registry in which all slots are occupied, \<^verbatim>\<open>add_client\<close> is
  a silent no-op: the array is left as it was, and the call does nothing but take and
  release the mutex (it returns \<^verbatim>\<open>void\<close>: there is no error to report).
\<close>

theorem add_client_full_noop:
  assumes "length (client_sockets s) = MAX_CLIENTS" and "0 \<notin> set (client_sockets s)"
  shows "add_client h s = s\<lparr>events := events s @ [Lock, Unlock]\<rparr>"
  using assms by (simp add: add_client_eq fill_first_free_full)

theorem add_client_full_noop_witness:
  "length (client_sockets \<lparr>client_sockets = [1, 2, 3, 4, 5, 6, 7, 8, 9, 10], events = []\<rparr>) = MAX_CLIENTS \<and>
   0 \<notin> set (client_sockets \<lparr>client_sockets = [1, 2, 3, 4, 5, 6, 7, 8, 9, 10], events = []\<rparr>) \<and>
   add_client 11 \<lparr>client_sockets = [1, 2, 3, 4, 5, 6, 7, 8, 9, 10], events = []\<rparr> =
     \<lparr>client_sockets = [1, 2, 3, 4, 5, 6, 7, 8, 9, 10], events = [Lock, Unlock]\<rparr>"
  using add_client_full_noop [of "\<lparr>client_sockets = [1, 2, 3, 4, 5, 6, 7, 8, 9, 10], events = []\<rparr>" 11]
  by (simp add: MAX_CLIENTS_def)

lemma fill_first_free_slot:
  "0 \<in> set cs \<Longrightarrow>
   \<exists>i<length cs. cs ! i = 0 \<and> (\<forall>j<i. cs ! j \<noteq> 0) \<and> fill_first_free h cs = cs[i := h]"
proof (induction cs)
  case Nil
  then show ?case by simp
next
  case (Cons x cs)
  show ?case
  proof (cases "x = 0")
    case True
    then show ?thesis by (intro exI [of _ 0]) simp
  next
    case False
    with Cons obtain i where i: "i < length cs" "cs ! i = 0" "\<forall>j<i. cs ! j \<noteq> 0"
      "fill_first_free h cs = cs[i := h]"
      by auto
    with False show ?thesis
      by (intro exI [of _ "Suc i"]) (auto simp: less_Suc_eq_0_disj)
  qed
qed

lemma count_list_fill_first_free:
  "count_list (fill_first_free h cs) h =
     (if 0 \<in> set cs \<and> h \<noteq> 0 then Suc (count_list cs h) else count_list cs h)"
  by (induction cs) auto

lemma count_list_distinct_filter:
  "distinct (filter P cs) \<Longrightarrow> P h \<Longrightarrow> count_list cs h \<le> 1"
  by (induction cs) (auto split: if_splits simp: count_list_0_iff)

lemma fill_first_free_same_iff: "h \<noteq> 0 \<Longrightarrow> fill_first_free h cs = cs \<longleftrightarrow> 0 \<notin> set cs"
  by (induction cs) auto

text \<open>
  C5 (as amended). In every state reached by a sequence of operations in which every
  \<open>Add\<close> is of a handle other than 0 that is not registered at that moment, each handle
  other than 0 occupies at most one slot. \<open>Add\<close> of a handle that is already present leaves
  the array unchanged only when no slot is free; otherwise it puts the handle into the first
  free slot, and the handle then occupies two slots.
\<close>

theorem handle_at_most_one_slot:
  assumes "fresh_adds {} acts" and "h \<noteq> 0"
  shows "count_list (client_sockets (run acts)) h \<le> 1 \<and>
         (h \<in> set (client_sockets (run acts)) \<longrightarrow>
            (client_sockets (add_client h (run acts)) = client_sockets (run acts))
              = (0 \<notin> set (client_sockets (run acts)))) \<and>
         (h \<in> set (client_sockets (run acts)) \<and> 0 \<in> set (client_sockets (run acts)) \<longrightarrow>
            (\<exists>i<MAX_CLIENTS. client_sockets (run acts) ! i = 0 \<and>
               (\<forall>j<i. client_sockets (run acts) ! j \<noteq> 0) \<and>
               client_sockets (add_client h (run acts)) = (client_sockets (run acts))[i := h]) \<and>
            count_list (client_sockets (add_client h (run acts))) h = 2)"
proof -
  let ?cs = "client_sockets (run acts)"
  from assms(1) have inv: "reg_inv (spec_members acts) (run acts)"
    by (rule reg_inv_run)
  then have len: "length ?cs = MAX_CLIENTS"
    and dis: "distinct (filter (\<lambda>x. x \<noteq> 0) ?cs)"
    by (simp_all add: reg_inv_def)
  from count_list_distinct_filter [OF dis, of h] assms(2)
  have one: "count_list ?cs h \<le> 1"
    by simp
  from len have new: "client_sockets (add_client h (run acts)) = fill_first_free h ?cs"
    by (simp add: add_client_eq)
  from assms(2) have same: "(fill_first_free h ?cs = ?cs) = (0 \<notin> set ?cs)"
    by (rule fill_first_free_same_iff)
  have second: "(\<exists>i<MAX_CLIENTS. ?cs ! i = 0 \<and> (\<forall>j<i. ?cs ! j \<noteq> 0) \<and>
                   fill_first_free h ?cs = ?cs[i := h]) \<and>
                count_list (fill_first_free h ?cs) h = 2"
    if "h \<in> set ?cs" and free: "0 \<in> set ?cs"
  proof -
    from that(1) one have "count_list ?cs h = 1"
      using count_list_0_iff [of ?cs h] by linarith
    with free assms(2) have "count_list (fill_first_free h ?cs) h = 2"
      by (simp add: count_list_fill_first_free)
    with fill_first_free_slot [OF free, of h] len show ?thesis
      by simp
  qed
  from one same second show ?thesis
    unfolding new by blast
qed

theorem handle_at_most_one_slot_witness:
  "fresh_adds {} [Add 5] \<and> (5 :: c_int) \<noteq> 0 \<and>
   count_list (client_sockets (run [Add 5])) 5 \<le> 1 \<and>
   5 \<in> set (client_sockets (run [Add 5])) \<and>
   0 \<in> set (client_sockets (run [Add 5])) \<and>
   client_sockets (add_client 5 (run [Add 5])) \<noteq> client_sockets (run [Add 5]) \<and>
   count_list (client_sockets (add_client 5 (run [Add 5]))) 5 = 2"
proof -
  have f: "fresh_adds {} [Add 5]" by (simp add: MAX_CLIENTS_def)
  have n: "(5 :: c_int) \<noteq> 0" by simp
  have m: "5 \<in> set (client_sockets (run [Add 5]))" "0 \<in> set (client_sockets (run [Add 5]))"
    by code_simp+
  from handle_at_most_one_slot [OF f n] f n m show ?thesis by simp
qed

text \<open>
  As written the claim fails: after \<open>Add 5\<close>, a second \<open>Add 5\<close> changes the array, and
  then 5 occupies two slots.
\<close>

theorem add_present_counterexample:
  "count_list (client_sockets (run [Add 5, Add 5])) 5 = 2 \<and>
   client_sockets (add_client 5 (run [Add 5])) \<noteq> client_sockets (run [Add 5])"
  by code_simp

lemma clear_first_slot:
  "h \<in> set cs \<Longrightarrow>
   \<exists>i<length cs. cs ! i = h \<and> (\<forall>j<i. cs ! j \<noteq> h) \<and> clear_first h cs = cs[i := 0]"
proof (induction cs)
  case Nil
  then show ?case by simp
next
  case (Cons x cs)
  show ?case
  proof (cases "x = h")
    case True
    then show ?thesis by (intro exI [of _ 0]) simp
  next
    case False
    with Cons obtain i where i: "i < length cs" "cs ! i = h" "\<forall>j<i. cs ! j \<noteq> h"
      "clear_first h cs = cs[i := 0]"
      by auto
    with False show ?thesis
      by (intro exI [of _ "Suc i"]) (auto simp: less_Suc_eq_0_disj)
  qed
qed

lemma count_list_clear_first:
  "h \<noteq> 0 \<Longrightarrow> count_list (clear_first h cs) h = count_list cs h - 1"
  by (induction cs) auto

lemma clear_first_same_iff: "clear_first h cs = cs \<longleftrightarrow> h = 0 \<or> h \<notin> set cs"
  by (induction cs) auto

lemma clear_first_twice_iff:
  "clear_first h (clear_first h cs) = clear_first h cs \<longleftrightarrow> h = 0 \<or> count_list cs h \<le> 1"
  by (induction cs) (auto simp: clear_first_same_iff count_list_0_iff)

text \<open>
  C6 (as amended). \<^verbatim>\<open>remove_client\<close> of a handle that is not in the array changes
  nothing (it only takes and releases the mutex). Removing a handle twice leaves the array
  as removing it once does exactly when the handle occupies at most one slot (or is 0).
  \<^verbatim>\<open>remove_client\<close> of a handle that is in the array sets the first slot that holds it
  to 0 and no other, so a handle other than 0 occupies one slot fewer after each call.
\<close>

theorem remove_client_idempotent_iff:
  assumes "length (client_sockets s) = MAX_CLIENTS"
  shows "(h \<notin> set (client_sockets s) \<longrightarrow>
            remove_client h s = s\<lparr>events := events s @ [Lock, Unlock]\<rparr>) \<and>
         (client_sockets (remove_client h (remove_client h s)) = client_sockets (remove_client h s))
           = (h = 0 \<or> count_list (client_sockets s) h \<le> 1) \<and>
         (h \<in> set (client_sockets s) \<longrightarrow>
            (\<exists>i<MAX_CLIENTS. client_sockets s ! i = h \<and>
               (\<forall>j<i. client_sockets s ! j \<noteq> h) \<and>
               client_sockets (remove_client h s) = (client_sockets s)[i := 0])) \<and>
         (h \<noteq> 0 \<longrightarrow>
            count_list (client_sockets (remove_client h s)) h = count_list (client_sockets s) h - 1)"
proof -
  let ?cs = "client_sockets s"
  from assms have new: "client_sockets (remove_client h s) = clear_first h ?cs"
    by (simp add: remove_client_eq)
  from assms have "h \<notin> set ?cs \<longrightarrow> remove_client h s = s\<lparr>events := events s @ [Lock, Unlock]\<rparr>"
    by (simp add: remove_client_eq clear_first_absent)
  moreover from assms have
    "(client_sockets (remove_client h (remove_client h s)) = client_sockets (remove_client h s))
       = (h = 0 \<or> count_list ?cs h \<le> 1)"
    by (simp add: remove_client_eq clear_first_twice_iff)
  moreover have "h \<in> set ?cs \<longrightarrow>
      (\<exists>i<MAX_CLIENTS. ?cs ! i = h \<and> (\<forall>j<i. ?cs ! j \<noteq> h) \<and> clear_first h ?cs = ?cs[i := 0])"
    using clear_first_slot [of h ?cs] assms by simp
  moreover have "h \<noteq> 0 \<longrightarrow> count_list (clear_first h ?cs) h = count_list ?cs h - 1"
    by (simp add: count_list_clear_first)
  ultimately show ?thesis
    unfolding new by blast
qed

theorem remove_client_idempotent_iff_witness:
  "length (client_sockets \<lparr>client_sockets = [4, 5, 5, 0, 0, 0, 0, 0, 0, 0], events = []\<rparr>) = MAX_CLIENTS \<and>
   remove_client 6 \<lparr>client_sockets = [4, 5, 5, 0, 0, 0, 0, 0, 0, 0], events = []\<rparr> =
     \<lparr>client_sockets = [4, 5, 5, 0, 0, 0, 0, 0, 0, 0], events = [Lock, Unlock]\<rparr> \<and>
   client_sockets (remove_client 4 (remove_client 4 \<lparr>client_sockets = [4, 5, 5, 0, 0, 0, 0, 0, 0, 0], events = []\<rparr>)) =
   client_sockets (remove_client 4 \<lparr>client_sockets = [4, 5, 5, 0, 0, 0, 0, 0, 0, 0], events = []\<rparr>) \<and>
   count_list (client_sockets (remove_client 5 \<lparr>client_sockets = [4, 5, 5, 0, 0, 0, 0, 0, 0, 0], events = []\<rparr>)) 5 = 1"
  using remove_client_idempotent_iff [of "\<lparr>client_sockets = [4, 5, 5, 0, 0, 0, 0, 0, 0, 0], events = []\<rparr>" 6]
    remove_client_idempotent_iff [of "\<lparr>client_sockets = [4, 5, 5, 0, 0, 0, 0, 0, 0, 0], events = []\<rparr>" 4]
    remove_client_idempotent_iff [of "\<lparr>client_sockets = [4, 5, 5, 0, 0, 0, 0, 0, 0, 0], events = []\<rparr>" 5]
  by (simp add: MAX_CLIENTS_def)

text \<open>
  As written, for every state of the registry, the claim fails: in the state reached by
  adding 5 twice, the first removal clears slot 0 and the second clears slot 1.
\<close>

theorem remove_twice_counterexample:
  "client_sockets (remove_client 5 (run [Add 5, Add 5])) = [0, 5, 0, 0, 0, 0, 0, 0, 0, 0] \<and>
   client_sockets (remove_client 5 (remove_client 5 (run [Add 5, Add 5]))) = [0, 0, 0, 0, 0, 0, 0, 0, 0, 0]"
  by code_simp

subsection \<open>Who is written to\<close>

lemma receivers_no_zero: "0 \<notin> set (receivers h cs)"
  by (simp add: receivers_def)

lemma receivers_subset: "set (receivers h cs) \<subseteq> set cs - {0, h}"
  by (auto simp: receivers_def)

lemma send_targets_append [simp]: "send_targets (es @ fs) = send_targets es @ send_targets fs"
  by (induction es rule: send_targets.induct) auto

lemma send_targets_map_Send [simp]: "send_targets (map (\<lambda>t. Send t m) ts) = ts"
  by (induction ts) auto

lemma send_targets_step:
  "length (client_sockets s) = MAX_CLIENTS \<Longrightarrow>
   send_targets (events (step s a)) =
     send_targets (events s) @
       (case a of Broadcast h m \<Rightarrow> receivers h (client_sockets s) | _ \<Rightarrow> [])"
  by (cases a) (simp_all add: add_client_eq remove_client_eq broadcast_message_eq)

lemma never_sent_step:
  assumes "length (client_sockets s) = MAX_CLIENTS"
    and "h = 0 \<or> h \<notin> set (client_sockets s)"
    and "h \<notin> set (send_targets (events s))"
    and "a \<noteq> Add h"
  shows "(h = 0 \<or> h \<notin> set (client_sockets (step s a))) \<and>
         h \<notin> set (send_targets (events (step s a)))"
proof (cases a)
  case (Add h')
  with assms show ?thesis
    using set_fill_first_free_subset [of h' "client_sockets s"]
    by (auto simp: add_client_eq)
next
  case (Remove h')
  with assms show ?thesis
    using set_clear_first_subset [of h' "client_sockets s"]
    by (auto simp: remove_client_eq)
next
  case (Broadcast h' m)
  with assms show ?thesis
    using receivers_subset [of h' "client_sockets s"]
    by (auto simp: broadcast_message_eq)
qed

lemma never_sent_exec:
  "length (client_sockets s) = MAX_CLIENTS \<Longrightarrow>
   h = 0 \<or> h \<notin> set (client_sockets s) \<Longrightarrow>
   h \<notin> set (send_targets (events s)) \<Longrightarrow>
   Add h \<notin> set acts \<Longrightarrow>
   h \<notin> set (send_targets (events (exec acts s)))"
  unfolding exec_def
proof (induction acts arbitrary: s)
  case Nil
  then show ?case by simp
next
  case (Cons a acts)
  from Cons.prems have a: "a \<noteq> Add h" and rest: "Add h \<notin> set acts"
    by auto
  from never_sent_step [OF Cons.prems(1-3) a]
  have "h = 0 \<or> h \<notin> set (client_sockets (step s a))"
    and "h \<notin> set (send_targets (events (step s a)))"
    by simp_all
  moreover from Cons.prems(1) have "length (client_sockets (step s a)) = MAX_CLIENTS"
    by (rule length_step)
  ultimately show ?case using Cons.IH rest by simp
qed


lemma zero_never_sent_exec:
  "length (client_sockets s) = MAX_CLIENTS \<Longrightarrow>
   0 \<notin> set (send_targets (events s)) \<Longrightarrow>
   0 \<notin> set (send_targets (events (exec acts s)))"
  unfolding exec_def
proof (induction acts arbitrary: s)
  case Nil
  then show ?case by simp
next
  case (Cons a acts)
  from Cons.prems have "0 \<notin> set (send_targets (events (step s a)))"
    by (simp add: send_targets_step receivers_no_zero split: action.split)
  moreover from Cons.prems(1) have "length (client_sockets (step s a)) = MAX_CLIENTS"
    by (rule length_step)
  ultimately show ?case using Cons.IH by simp
qed

text \<open>
  C10. The value 0 is the mark of a free slot. Whatever sequence of operations has run (an
  \<open>Add 0\<close> among them or not): no snapshot contains 0, \<open>Add 0\<close> leaves the array as it is
  (so the registered handles other than 0 are the same), and no broadcast has ever written
  to the handle 0: a connection whose handle is 0 never becomes a member.
\<close>

theorem zero_never_member:
  "0 \<notin> set (snapshot h (run acts)) \<and>
   client_sockets (add_client 0 (run acts)) = client_sockets (run acts) \<and>
   0 \<notin> set (send_targets (events (run acts)))"
proof -
  have len: "length (client_sockets (run acts)) = MAX_CLIENTS"
    by (rule length_run)
  then have "0 \<notin> set (snapshot h (run acts))"
    by (simp add: snapshot_eq receivers_no_zero)
  moreover from len have "client_sockets (add_client 0 (run acts)) = client_sockets (run acts)"
    by (simp add: add_client_eq fill_first_free_zero)
  moreover have "0 \<notin> set (send_targets (events (run acts)))"
    unfolding run_def by (rule zero_never_sent_exec) (simp_all add: initial_server_def)
  ultimately show ?thesis by simp
qed

theorem zero_never_member_witness:
  "0 \<notin> set (snapshot 4 (run [Add 4, Add 0, Add 5, Broadcast 4 ''hi''])) \<and>
   client_sockets (add_client 0 (run [Add 4, Add 0, Add 5, Broadcast 4 ''hi''])) =
     client_sockets (run [Add 4, Add 0, Add 5, Broadcast 4 ''hi'']) \<and>
   0 \<notin> set (send_targets (events (run [Add 4, Add 0, Add 5, Broadcast 4 ''hi''])))"
  by (rule zero_never_member)

text \<open>
  C3 (as amended). A broadcast takes the mutex, scans the array and writes to each member
  it finds while it holds the mutex, and releases the mutex after the last write: every
  write to a peer happens with the mutex held. There is no snapshot apart from this scan.
\<close>

theorem broadcast_writes_under_lock:
  assumes "length (client_sockets s) = MAX_CLIENTS"
  shows "events (broadcast_message sender message s) =
           events s @ Lock # map (\<lambda>t. Send t message) (snapshot sender s) @ [Unlock] \<and>
         sends_locked False (events (broadcast_message sender message (s\<lparr>events := []\<rparr>)))"
proof -
  have locked: "sends_locked True (map (\<lambda>t. Send t message) ts @ [Unlock])" for ts
    by (induction ts) auto
  from assms have "snapshot sender s = receivers sender (client_sockets s)"
    by (simp add: snapshot_def broadcast_message_eq)
  with assms locked show ?thesis
    by (simp add: broadcast_message_eq)
qed

theorem broadcast_writes_under_lock_witness:
  "length (client_sockets \<lparr>client_sockets = [4, 5, 6, 0, 0, 0, 0, 0, 0, 0], events = []\<rparr>) = MAX_CLIENTS \<and>
   events (broadcast_message 4 ''hi'' \<lparr>client_sockets = [4, 5, 6, 0, 0, 0, 0, 0, 0, 0], events = []\<rparr>) =
     [Lock, Send 5 ''hi'', Send 6 ''hi'', Unlock] \<and>
   sends_locked False
     (events (broadcast_message 4 ''hi'' \<lparr>client_sockets = [4, 5, 6, 0, 0, 0, 0, 0, 0, 0], events = []\<rparr>))"
proof -
  let ?s = "\<lparr>client_sockets = [4, 5, 6, 0, 0, 0, 0, 0, 0, 0], events = []\<rparr>"
  have len: "length (client_sockets ?s) = MAX_CLIENTS"
    by (simp add: MAX_CLIENTS_def)
  have snap: "snapshot 4 ?s = [5, 6]"
    by (simp add: snapshot_eq [OF len] receivers_def)
  from broadcast_writes_under_lock [OF len, of 4 "''hi''"] len snap show ?thesis
    by simp
qed

text \<open>
  As written the claim fails: \<^verbatim>\<open>send\<close> is called inside the loop, between
  \<^verbatim>\<open>pthread_mutex_lock\<close> and \<^verbatim>\<open>pthread_mutex_unlock\<close>. With the sockets 4 and 5
  registered, a broadcast from 4 writes to 5 while the mutex is held.
\<close>

theorem write_under_lock_counterexample:
  "events (broadcast_message 4 ''hi'' \<lparr>client_sockets = [4, 5, 0, 0, 0, 0, 0, 0, 0, 0], events = []\<rparr>) =
     [Lock, Send 5 ''hi'', Unlock] \<and>
   \<not> sends_unlocked False
     (events (broadcast_message 4 ''hi'' \<lparr>client_sockets = [4, 5, 0, 0, 0, 0, 0, 0, 0, 0], events = []\<rparr>))"
  by code_simp


subsection \<open>A connection beyond capacity\<close>

lemma receivers_all: "0 \<notin> set cs \<Longrightarrow> h \<notin> set cs \<Longrightarrow> receivers h cs = cs"
  by (induction cs) (auto simp: receivers_def)

text \<open>A session calls \<^verbatim>\<open>add_client\<close> once, at its start, and never again.\<close>

lemma read_loop_no_Add: "read_loop ci reads = Some calls \<Longrightarrow> Add h \<notin> set calls"
  by (induction reads arbitrary: calls) (auto split: if_splits option.splits)

lemma handle_client_adds_once:
  "handle_client ci reads = Some calls \<Longrightarrow>
   \<exists>rest. calls = Add (sock ci) # rest \<and> Add (sock ci) \<notin> set rest"
  by (auto simp: handle_client_def read_loop_no_Add)

text \<open>
  C7 (as amended). A connection that arrives when all slots are occupied is accepted
  silently and is not registered: \<^verbatim>\<open>add_client\<close> leaves the array as it is and does
  nothing but take and release the mutex, the messages of the new session are written to
  all ten members, and as long as its handle is not added again (a session adds its handle
  once) no later operation writes to it, also after a removal has freed a slot.
\<close>

theorem full_registry_accepts_silently:
  assumes "length (client_sockets s) = MAX_CLIENTS"
    and "0 \<notin> set (client_sockets s)"
    and "h \<notin> set (client_sockets s)"
    and "Add h \<notin> set acts"
  shows "add_client h s = s\<lparr>events := events s @ [Lock, Unlock]\<rparr> \<and>
         snapshot h (add_client h s) = client_sockets s \<and>
         h \<notin> set (send_targets (events (exec acts ((add_client h s)\<lparr>events := []\<rparr>))))"
proof -
  from assms(1,2) have noop: "add_client h s = s\<lparr>events := events s @ [Lock, Unlock]\<rparr>"
    by (simp add: add_client_eq fill_first_free_full)
  from assms(1-3) have "snapshot h (add_client h s) = client_sockets s"
    unfolding noop by (simp add: snapshot_eq receivers_all)
  moreover have "h \<notin> set (send_targets (events (exec acts ((add_client h s)\<lparr>events := []\<rparr>))))"
    unfolding noop using assms by (intro never_sent_exec) simp_all
  ultimately show ?thesis using noop by simp
qed

theorem full_registry_accepts_silently_witness:
  "length (client_sockets \<lparr>client_sockets = [1, 2, 3, 4, 5, 6, 7, 8, 9, 10], events = []\<rparr>) = MAX_CLIENTS \<and>
   0 \<notin> set (client_sockets \<lparr>client_sockets = [1, 2, 3, 4, 5, 6, 7, 8, 9, 10], events = []\<rparr>) \<and>
   11 \<notin> set (client_sockets \<lparr>client_sockets = [1, 2, 3, 4, 5, 6, 7, 8, 9, 10], events = []\<rparr>) \<and>
   Add 11 \<notin> set [Remove 2, Broadcast 1 ''hi'', Broadcast 11 ''ho''] \<and>
   add_client 11 \<lparr>client_sockets = [1, 2, 3, 4, 5, 6, 7, 8, 9, 10], events = []\<rparr> =
     \<lparr>client_sockets = [1, 2, 3, 4, 5, 6, 7, 8, 9, 10], events = [Lock, Unlock]\<rparr> \<and>
   snapshot 11 (add_client 11 \<lparr>client_sockets = [1, 2, 3, 4, 5, 6, 7, 8, 9, 10], events = []\<rparr>) =
     [1, 2, 3, 4, 5, 6, 7, 8, 9, 10] \<and>
   11 \<notin> set (send_targets (events (exec [Remove 2, Broadcast 1 ''hi'', Broadcast 11 ''ho'']
            ((add_client 11 \<lparr>client_sockets = [1, 2, 3, 4, 5, 6, 7, 8, 9, 10], events = []\<rparr>)\<lparr>events := []\<rparr>))))"
proof -
  let ?s = "\<lparr>client_sockets = [1, 2, 3, 4, 5, 6, 7, 8, 9, 10], events = []\<rparr>"
  let ?acts = "[Remove 2, Broadcast 1 ''hi'', Broadcast 11 ''ho'']"
  have a: "length (client_sockets ?s) = MAX_CLIENTS" by (simp add: MAX_CLIENTS_def)
  have b: "0 \<notin> set (client_sockets ?s)" by simp
  have c: "11 \<notin> set (client_sockets ?s)" by simp
  have d: "Add 11 \<notin> set ?acts" by simp
  note r = full_registry_accepts_silently [OF a b c d]
  from r have e: "add_client 11 ?s =
      \<lparr>client_sockets = [1, 2, 3, 4, 5, 6, 7, 8, 9, 10], events = [Lock, Unlock]\<rparr>"
    by simp
  have f: "snapshot 11 (add_client 11 ?s) = [1, 2, 3, 4, 5, 6, 7, 8, 9, 10]"
    unfolding conjunct1 [OF conjunct2 [OF r]] by simp
  show ?thesis
    by (intro conjI a b c d e f conjunct2 [OF conjunct2 [OF r]])
qed

text \<open>
  As written the claim fails. The eleventh connection changes nothing in the array; its
  session runs and its message goes to the ten members; after socket 2 has been removed, a
  broadcast from 1 goes to the eight others, and not to 11.
\<close>

theorem silent_accept_counterexample:
  "client_sockets (run [Add 1, Add 2, Add 3, Add 4, Add 5, Add 6, Add 7, Add 8, Add 9, Add 10, Add 11]) =
     [1, 2, 3, 4, 5, 6, 7, 8, 9, 10] \<and>
   handle_client \<lparr>sock = 11, client_id = 7\<rparr> [Delivered ''hi''] =
     Some [Add 11, Broadcast 11 ''[Client 7]: hi''] \<and>
   send_targets (events (exec [Add 11, Broadcast 11 ''[Client 7]: hi'', Remove 2, Broadcast 1 ''ho'']
      \<lparr>client_sockets = [1, 2, 3, 4, 5, 6, 7, 8, 9, 10], events = []\<rparr>)) =
     [1, 2, 3, 4, 5, 6, 7, 8, 9, 10, 3, 4, 5, 6, 7, 8, 9, 10]"
  by code_simp

section \<open>The claims about a session\<close>

subsection \<open>The message a read becomes\<close>

lemma digits_length: "n < 10 ^ k \<Longrightarrow> 0 < k \<Longrightarrow> length (digits n) \<le> k"
proof (induction n arbitrary: k rule: digits.induct)
  case (1 n)
  show ?case
  proof (cases "n < 10")
    case True
    with "1.prems" show ?thesis by (subst digits.simps) simp
  next
    case False
    with "1.prems" obtain j where k: "k = Suc j"
      by (cases k) auto
    from False k "1.prems" have j: "0 < j"
      by (cases j) auto
    from "1.prems" k have "n div 10 < 10 ^ j"
      by (simp add: less_mult_imp_div_less mult.commute)
    with "1.IH" False j have "length (digits (n div 10)) \<le> j" by simp
    with False k show ?thesis by (subst digits.simps) simp
  qed
qed

lemma show_int_length: "length (show_int (sint (w :: c_int))) \<le> 11"
proof -
  have lo: "- (2 ^ 31) \<le> sint w" and hi: "sint w < 2 ^ 31"
    using sint_range_size [of w] by (simp_all add: word_size)
  show ?thesis
  proof (cases "sint w < 0")
    case True
    with lo have "nat (- sint w) < 10 ^ 10" by simp
    then have "length (digits (nat (- sint w))) \<le> 10" by (rule digits_length) simp
    with True show ?thesis by (simp add: show_int_def)
  next
    case False
    with hi have "nat (sint w) < 10 ^ 10" by simp
    then have "length (digits (nat (sint w))) \<le> 10" by (rule digits_length) simp
    with False show ?thesis by (simp add: show_int_def)
  qed
qed

lemma cstring_terminated: "NUL \<notin> set p \<Longrightarrow> cstring (p @ NUL # zs) = p"
  by (induction p) (auto simp: cstring_def)

lemma cstring_append_NUL: "cstring (l @ NUL # zs) = cstring l"
  by (induction l) (auto simp: cstring_def)

lemma cstring_NUL_free_id: "NUL \<notin> set P \<Longrightarrow> cstring P = P"
  by (induction P) (auto simp: cstring_def)

lemma cstring_first_NUL:
  "NUL \<in> set P \<Longrightarrow> \<exists>Q R. P = Q @ NUL # R \<and> NUL \<notin> set Q \<and> cstring P = Q"
proof -
  assume "NUL \<in> set P"
  then obtain Q R where "P = Q @ NUL # R" and "NUL \<notin> set Q"
    by (meson split_list_first)
  then show ?thesis
    using cstring_terminated [of Q R] by blast
qed

lemma length_cstring: "length (cstring P) \<le> length P"
  by (simp add: cstring_def length_takeWhile_le)

lemma buffer_after_text:
  assumes "length P < BUFFER_SIZE"
  shows "buffer_after (Delivered P) = P @ NUL # replicate (BUFFER_SIZE - length P - 1) NUL"
proof -
  from assms obtain k where k: "BUFFER_SIZE - length P = Suc k"
    by (cases "BUFFER_SIZE - length P") auto
  with assms show ?thesis by simp
qed

lemma snprintf_message_payload:
  assumes "length P < BUFFER_SIZE"
  shows "snprintf_message cid (buffer_after (Delivered P)) =
         Some (''[Client '' @ show_int (sint cid) @ '']: '' @ cstring P)"
proof -
  have "length (''[Client '' @ show_int (sint cid) @ '']: '' @ cstring P) \<le> BUFFER_SIZE + 50 - 1"
    using show_int_length [of cid] length_cstring [of P] assms by simp
  then show ?thesis
    using assms by (simp add: snprintf_message_def buffer_after_text cstring_append_NUL
        del: buffer_after.simps)
qed

lemma received_by_append [simp]: "received_by h (es @ fs) = received_by h es @ received_by h fs"
  by (induction es rule: received_by.induct) auto

lemma received_by_sends:
  "received_by h (map (\<lambda>t. Send t m) ts) = replicate (count_list ts h) m"
  by (induction ts) auto

lemma count_list_receivers:
  "count_list (receivers a cs) h = (if h = 0 \<or> h = a then 0 else count_list cs h)"
  by (induction cs) (auto simp: receivers_def)


text \<open>
  C2 (as amended). Let B be registered in one slot, and let A, another socket, send a
  payload P that one read delivers without filling the buffer (at least one byte, fewer
  than \<open>BUFFER_SIZE\<close>). Then the session of A makes one broadcast, of the string
  \<^verbatim>\<open>"[Client <A.id>]: "\<close> followed by the bytes of P before its first NUL byte: all of P
  when P has no NUL byte. B is written exactly that string, once, and A is written nothing.
\<close>

theorem broadcast_tagged_payload:
  assumes "length (client_sockets s) = MAX_CLIENTS"
    and "B \<noteq> 0" and "B \<noteq> sock A" and "count_list (client_sockets s) B = 1"
    and "P \<noteq> []" and "length P < BUFFER_SIZE"
  shows "read_loop A [Delivered P] =
           Some [Broadcast (sock A) (''[Client '' @ show_int (sint (client_id A)) @ '']: '' @ cstring P)] \<and>
         received_by B (events (exec [Broadcast (sock A)
             (''[Client '' @ show_int (sint (client_id A)) @ '']: '' @ cstring P)] (s\<lparr>events := []\<rparr>))) =
           [''[Client '' @ show_int (sint (client_id A)) @ '']: '' @ cstring P] \<and>
         received_by (sock A) (events (exec [Broadcast (sock A)
             (''[Client '' @ show_int (sint (client_id A)) @ '']: '' @ cstring P)] (s\<lparr>events := []\<rparr>))) = [] \<and>
         (NUL \<notin> set P \<longrightarrow> cstring P = P) \<and>
         (NUL \<in> set P \<longrightarrow> (\<exists>Q R. P = Q @ NUL # R \<and> NUL \<notin> set Q \<and> cstring P = Q))"
proof -
  let ?m = "''[Client '' @ show_int (sint (client_id A)) @ '']: '' @ cstring P"
  from assms(5,6) have "\<not> valread (Delivered P) \<le> 0"
    by simp
  moreover from assms(6) have "snprintf_message (client_id A) (buffer_after (Delivered P)) = Some ?m"
    by (rule snprintf_message_payload)
  ultimately have "read_loop A [Delivered P] = Some [Broadcast (sock A) ?m]"
    by (simp del: valread.simps buffer_after.simps)
  moreover from assms(1) have
    "events (exec [Broadcast (sock A) ?m] (s\<lparr>events := []\<rparr>)) =
       Lock # map (\<lambda>t. Send t ?m) (receivers (sock A) (client_sockets s)) @ [Unlock]"
    by (simp add: exec_def broadcast_message_eq)
  ultimately show ?thesis
    using assms(2-4) cstring_first_NUL [of P]
    by (simp add: received_by_sends count_list_receivers cstring_NUL_free_id)
qed

theorem broadcast_tagged_payload_witness:
  "length (client_sockets \<lparr>client_sockets = [4, 5, 0, 0, 0, 0, 0, 0, 0, 0], events = []\<rparr>) = MAX_CLIENTS \<and>
   (5 :: c_int) \<noteq> 0 \<and> 5 \<noteq> sock \<lparr>sock = 4, client_id = 7\<rparr> \<and>
   count_list (client_sockets \<lparr>client_sockets = [4, 5, 0, 0, 0, 0, 0, 0, 0, 0], events = []\<rparr>) 5 = 1 \<and>
   ''hello'' \<noteq> [] \<and> length ''hello'' < BUFFER_SIZE \<and>
   ''ab'' @ NUL # ''cd'' \<noteq> [] \<and> length (''ab'' @ NUL # ''cd'') < BUFFER_SIZE \<and>
   read_loop \<lparr>sock = 4, client_id = 7\<rparr> [Delivered ''hello''] =
     Some [Broadcast 4 ''[Client 7]: hello''] \<and>
   received_by 5 (events (exec [Broadcast 4 ''[Client 7]: hello'']
      \<lparr>client_sockets = [4, 5, 0, 0, 0, 0, 0, 0, 0, 0], events = []\<rparr>)) = [''[Client 7]: hello''] \<and>
   received_by 4 (events (exec [Broadcast 4 ''[Client 7]: hello'']
      \<lparr>client_sockets = [4, 5, 0, 0, 0, 0, 0, 0, 0, 0], events = []\<rparr>)) = [] \<and>
   read_loop \<lparr>sock = 4, client_id = 7\<rparr> [Delivered (''ab'' @ NUL # ''cd'')] =
     Some [Broadcast 4 ''[Client 7]: ab''] \<and>
   received_by 5 (events (exec [Broadcast 4 ''[Client 7]: ab'']
      \<lparr>client_sockets = [4, 5, 0, 0, 0, 0, 0, 0, 0, 0], events = []\<rparr>)) = [''[Client 7]: ab'']"
proof -
  let ?s = "\<lparr>client_sockets = [4, 5, 0, 0, 0, 0, 0, 0, 0, 0], events = []\<rparr>"
  let ?A = "\<lparr>sock = 4, client_id = 7\<rparr>"
  have a: "length (client_sockets ?s) = MAX_CLIENTS" by (simp add: MAX_CLIENTS_def)
  have b: "(5 :: c_int) \<noteq> 0" by simp
  have c: "5 \<noteq> sock ?A" by simp
  have d: "count_list (client_sockets ?s) 5 = 1" by simp
  have f: "''hello'' \<noteq> []" by simp
  have g: "length ''hello'' < BUFFER_SIZE" by (simp add: BUFFER_SIZE_def)
  have f': "''ab'' @ NUL # ''cd'' \<noteq> []" by simp
  have g': "length (''ab'' @ NUL # ''cd'') < BUFFER_SIZE" by (simp add: BUFFER_SIZE_def)
  have t: "''[Client '' @ show_int (sint (client_id ?A)) @ '']: '' @ cstring ''hello'' = ''[Client 7]: hello''"
    by code_simp
  have t': "''[Client '' @ show_int (sint (client_id ?A)) @ '']: '' @ cstring (''ab'' @ NUL # ''cd'') = ''[Client 7]: ab''"
    by code_simp
  from broadcast_tagged_payload [OF a b c d f g] broadcast_tagged_payload [OF a b c d f' g']
    a b c d f g f' g' show ?thesis
    unfolding t t' by simp
qed

text \<open>
  As written, for every payload, the claim fails: the message is built with \<^verbatim>\<open>%s\<close> and
  sent with \<^verbatim>\<open>strlen\<close>, so a payload is cut at its first NUL byte. When A sends the three
  bytes a, NUL, b, B receives \<^verbatim>\<open>"[Client 7]: a"\<close>.
\<close>

theorem payload_with_NUL_counterexample:
  "read_loop \<lparr>sock = 4, client_id = 7\<rparr> [Delivered [CHR ''a'', NUL, CHR ''b'']] =
     Some [Broadcast 4 ''[Client 7]: a''] \<and>
   received_by 5 (events (exec [Broadcast 4 ''[Client 7]: a'']
      \<lparr>client_sockets = [4, 5, 0, 0, 0, 0, 0, 0, 0, 0], events = []\<rparr>)) = [''[Client 7]: a''] \<and>
   ''[Client 7]: a'' \<noteq> ''[Client 7]: '' @ [CHR ''a'', NUL, CHR ''b'']"
  by code_simp

subsection \<open>The identity of a session\<close>

lemma lib_run_append [simp]:
  "lib_run srand rand (xs @ ys) st = lib_run srand rand ys (lib_run srand rand xs st)"
  by (simp add: lib_run_def)

lemma client_ids_lib_step:
  "c \<noteq> Rand t \<Longrightarrow> client_ids (lib_step srand rand st c) t = client_ids st t"
  by (cases c) (auto split: prod.split)

lemma client_ids_lib_run:
  "Rand t \<notin> set calls \<Longrightarrow> client_ids (lib_run srand rand calls st) t = client_ids st t"
  unfolding lib_run_def
  by (induction calls arbitrary: st) (auto simp: client_ids_lib_step)

lemma client_ids_identity_calls:
  "client_ids (lib_run srand rand (identity_calls t now) st) t =
     Some (fst (rand (srand (word_of_int now))))"
  by (simp add: lib_run_def identity_calls_def split: prod.split)

text \<open>
  C8 (as amended). When the two library calls of a session run with no call of another
  thread between them, the identity of the session is the first number the generator
  draws after the seed, whatever state the generator was in: a function of the clock value
  at the start of the session alone. Two such sessions that start on the same clock value
  (the same seed) get the same identity.
\<close>

theorem same_seed_same_client_id:
  assumes "(word_of_int now1 :: 32 word) = word_of_int now2"
    and "a \<noteq> b"
    and "Rand a \<notin> set mid" and "Rand a \<notin> set post" and "Rand b \<notin> set post"
  shows "client_ids (lib_run srand rand
            (pre @ identity_calls a now1 @ mid @ identity_calls b now2 @ post) st) a =
           Some (fst (rand (srand (word_of_int now1)))) \<and>
         client_ids (lib_run srand rand
            (pre @ identity_calls a now1 @ mid @ identity_calls b now2 @ post) st) b =
           Some (fst (rand (srand (word_of_int now1))))"
proof -
  from assms(2) have "Rand a \<notin> set (identity_calls b now2)"
    by (simp add: identity_calls_def)
  with assms(3,4) have "Rand a \<notin> set (mid @ identity_calls b now2 @ post)"
    by simp
  then have "client_ids (lib_run srand rand
        (pre @ identity_calls a now1 @ mid @ identity_calls b now2 @ post) st) a =
      client_ids (lib_run srand rand (identity_calls a now1) (lib_run srand rand pre st)) a"
    using client_ids_lib_run [of a "mid @ identity_calls b now2 @ post" srand rand]
    by (simp del: set_append)
  moreover have "client_ids (lib_run srand rand
        (pre @ identity_calls a now1 @ mid @ identity_calls b now2 @ post) st) b =
      client_ids (lib_run srand rand (identity_calls b now2)
        (lib_run srand rand (pre @ identity_calls a now1 @ mid) st)) b"
    using client_ids_lib_run [OF assms(5), of srand rand] by simp
  ultimately show ?thesis
    using assms(1) by (simp add: client_ids_identity_calls)
qed

theorem same_seed_same_client_id_witness:
  "(word_of_int 1700000000 :: 32 word) = word_of_int 5994967296 \<and> (4 :: c_int) \<noteq> 5 \<and>
   Rand 4 \<notin> set [Srand 6 1700000001, Rand 6] \<and> Rand 4 \<notin> set [Rand 7] \<and> Rand 5 \<notin> set [Rand 7] \<and>
   client_ids (lib_run sample_srand sample_rand
      ([Rand 3] @ identity_calls 4 1700000000 @ [Srand 6 1700000001, Rand 6] @
       identity_calls 5 5994967296 @ [Rand 7])
      \<lparr>generator = 1, client_ids = Map.empty\<rparr>) 4 = Some 7723 \<and>
   client_ids (lib_run sample_srand sample_rand
      ([Rand 3] @ identity_calls 4 1700000000 @ [Srand 6 1700000001, Rand 6] @
       identity_calls 5 5994967296 @ [Rand 7])
      \<lparr>generator = 1, client_ids = Map.empty\<rparr>) 5 = Some 7723"
proof -
  have a: "(word_of_int 1700000000 :: 32 word) = word_of_int 5994967296" by simp
  have b: "(4 :: c_int) \<noteq> 5" by simp
  have c: "Rand 4 \<notin> set [Srand 6 1700000001, Rand 6]" by simp
  have d: "Rand 4 \<notin> set [Rand 7]" by simp
  have e: "Rand 5 \<notin> set [Rand 7]" by simp
  have v: "fst (sample_rand (sample_srand (word_of_int 1700000000))) = 7723"
    by (simp add: sample_srand_def sample_rand_def Let_def)
  from same_seed_same_client_id [OF a b c d e, of sample_srand sample_rand "[Rand 3]"
      "\<lparr>generator = 1, client_ids = Map.empty\<rparr>"]
  show ?thesis
    unfolding v using a b c d e by blast
qed

text \<open>
  As written, for every two sessions of one clock value, the claim fails: when both
  sessions have seeded before either draws, the first draws the first number after the
  seed and the second draws the second number.
\<close>

theorem interleaved_seeding_counterexample:
  "client_ids (lib_run sample_srand sample_rand
      [Srand 4 1700000000, Srand 5 1700000000, Rand 4, Rand 5]
      \<lparr>generator = 1, client_ids = Map.empty\<rparr>) 4 = Some 7723 \<and>
   client_ids (lib_run sample_srand sample_rand
      [Srand 4 1700000000, Srand 5 1700000000, Rand 4, Rand 5]
      \<lparr>generator = 1, client_ids = Map.empty\<rparr>) 5 = Some 25667"
  by (simp add: lib_run_def sample_srand_def sample_rand_def Let_def)

section \<open>The claim about the client\<close>

lemma fgets_scan_props:
  "fgets_scan n inp = (l, rest) \<Longrightarrow>
   inp = l @ rest \<and> length l \<le> n \<and>
   (newline \<in> set l \<longrightarrow> (\<exists>l'. l = l' @ [newline] \<and> newline \<notin> set l'))"
proof (induction n inp arbitrary: l rest rule: fgets_scan.induct)
  case (1 inp)
  then show ?case by simp
next
  case (2 n)
  then show ?case by simp
next
  case (3 n c cs)
  show ?case
  proof (cases "c = newline")
    case True
    with "3.prems" show ?thesis by auto
  next
    case False
    obtain l1 r1 where s: "fgets_scan n cs = (l1, r1)"
      by (cases "fgets_scan n cs")
    with False "3.prems" have l: "l = c # l1" and r: "rest = r1"
      by simp_all
    from "3.IH" [OF False s] have
      "cs = l1 @ r1" "length l1 \<le> n"
      "newline \<in> set l1 \<longrightarrow> (\<exists>l'. l1 = l' @ [newline] \<and> newline \<notin> set l')"
      by simp_all
    with False l r show ?thesis
      by (auto intro: exI [of _ "c # _"])
  qed
qed

lemma takeWhile_neq_append:
  "a \<notin> set xs \<Longrightarrow> takeWhile (\<lambda>c. c \<noteq> a) (xs @ ys) = xs @ takeWhile (\<lambda>c. c \<noteq> a) ys"
  by (induction xs) auto

lemma cstring_NUL_free: "NUL \<notin> set (cstring buf)"
  by (induction buf) (auto simp: cstring_def)

lemma cstring_cut:
  "cstring ((p @ NUL # zs)[length (takeWhile Q p) := NUL]) = takeWhile Q (cstring p)"
  if "NUL \<notin> set p" for p
  using that
proof (induction p)
  case Nil
  then show ?case by (simp add: cstring_def)
next
  case (Cons a p)
  then show ?case by (auto simp: cstring_def)
qed

lemma cstring_strcspn:
  assumes "NUL \<in> set buf"
  shows "cstring (buf[strcspn buf reject := NUL]) = takeWhile (\<lambda>c. c \<notin> set reject) (cstring buf)"
proof -
  from assms obtain p zs where buf: "buf = p @ NUL # zs" and p: "NUL \<notin> set p"
    by (meson split_list_first)
  then have c: "cstring buf = p"
    by (induction p arbitrary: buf) (auto simp: cstring_def)
  from p have "cstring p = p"
    by (induction p) (auto simp: cstring_def)
  with cstring_cut [OF p, of zs "\<lambda>c. c \<notin> set reject"] c buf show ?thesis
    by (simp add: strcspn_def)
qed

lemma take_strlen: "take (strlen buf) buf = cstring buf"
  by (simp add: strlen_def cstring_def takeWhile_eq_take [symmetric])

lemma strip_newline_takeWhile:
  assumes "newline \<in> set l \<longrightarrow> (\<exists>l'. l = l' @ [newline] \<and> newline \<notin> set l')"
  shows "takeWhile (\<lambda>c. c \<noteq> newline) (cstring l) = strip_newline (cstring l)"
proof (cases "newline \<in> set (cstring l)")
  case False
  then have "takeWhile (\<lambda>c. c \<noteq> newline) (cstring l) = cstring l"
    by (simp add: takeWhile_eq_all_conv) metis
  moreover from False have "strip_newline (cstring l) = cstring l"
    by (auto simp: strip_newline_def dest: last_in_set)
  ultimately show ?thesis by simp
next
  case True
  then have "newline \<in> set l"
    unfolding cstring_def by (auto dest: set_takeWhileD)
  with assms obtain l' where l: "l = l' @ [newline]" and l': "newline \<notin> set l'"
    by auto
  have nul: "NUL \<notin> set l'"
  proof
    assume "NUL \<in> set l'"
    then have "cstring l = cstring l'"
      unfolding l cstring_def by (simp add: takeWhile_append1)
    moreover have "set (cstring l') \<subseteq> set l'"
      unfolding cstring_def by (auto dest: set_takeWhileD)
    ultimately show False using True l' by auto
  qed
  then have "cstring l = l' @ [newline]"
    unfolding l cstring_def by (simp add: takeWhile_neq_append)
  with l' show ?thesis
    by (simp add: strip_newline_def takeWhile_neq_append)
qed


lemma fgets_buffer:
  assumes "fgets (replicate BUFFER_SIZE NUL) BUFFER_SIZE inp = (buf, rest)"
  shows "NUL \<in> set buf \<and>
         (\<exists>l. cstring buf = cstring l \<and>
              (newline \<in> set l \<longrightarrow> (\<exists>l'. l = l' @ [newline] \<and> newline \<notin> set l')))"
proof (cases "inp = []")
  case True
  with assms have buf: "buf = replicate BUFFER_SIZE NUL"
    by (simp add: fgets_def)
  then have "NUL \<in> set buf"
    by (simp add: BUFFER_SIZE_def)
  moreover from buf have "cstring buf = cstring []"
    by (cases BUFFER_SIZE) (simp_all add: cstring_def)
  ultimately show ?thesis
    by (intro conjI exI [of _ "[]"]) simp_all
next
  case False
  obtain l r where s: "fgets_scan (BUFFER_SIZE - 1) inp = (l, r)"
    by (cases "fgets_scan (BUFFER_SIZE - 1) inp")
  with False assms have buf: "buf = l @ NUL # drop (Suc (length l)) (replicate BUFFER_SIZE NUL)"
    by (simp add: fgets_def)
  from fgets_scan_props [OF s] have
    "newline \<in> set l \<longrightarrow> (\<exists>l'. l = l' @ [newline] \<and> newline \<notin> set l')"
    by simp
  with buf show ?thesis
    by (intro conjI exI [of _ l]) (simp_all add: cstring_append_NUL)
qed

lemma send_turn_eq:
  assumes "fgets (replicate BUFFER_SIZE NUL) BUFFER_SIZE inp = (buf, rest)"
  shows "send_turn fd inp =
           (if strip_newline (cstring buf) = ''exit'' then None
            else Some (Send fd (strip_newline (cstring buf)), rest))"
proof -
  from fgets_buffer [OF assms] obtain l where nul: "NUL \<in> set buf"
    and c: "cstring buf = cstring l"
    and l: "newline \<in> set l \<longrightarrow> (\<exists>l'. l = l' @ [newline] \<and> newline \<notin> set l')"
    by blast
  have "cstring (buf[strcspn buf [newline] := NUL]) = takeWhile (\<lambda>c. c \<noteq> newline) (cstring buf)"
    using cstring_strcspn [OF nul, of "[newline]"] by simp
  also have "\<dots> = strip_newline (cstring buf)"
    unfolding c using l by (rule strip_newline_takeWhile)
  finally have "cstring (buf[strcspn buf [newline] := NUL]) = strip_newline (cstring buf)" .
  with assms show ?thesis
    by (simp add: send_turn_def take_strlen)
qed

lemma fgets_text_line:
  assumes "newline \<notin> set l" and "length l < BUFFER_SIZE - 1"
  shows "fgets (replicate BUFFER_SIZE NUL) BUFFER_SIZE (l @ newline # rest) =
         (l @ newline # NUL # replicate (BUFFER_SIZE - length l - 2) NUL, rest)"
proof -
  have scan: "fgets_scan n (l @ newline # rest) = (l @ [newline], rest)"
    if "length l < n" for n
    using that assms(1)
  proof (induction l arbitrary: n)
    case Nil
    then show ?case by (cases n) simp_all
  next
    case (Cons a l)
    then show ?case by (cases n) auto
  qed
  from assms(2) have "fgets_scan (BUFFER_SIZE - 1) (l @ newline # rest) = (l @ [newline], rest)"
    by (rule scan)
  moreover from assms(2) have "Suc (Suc (length l)) \<le> BUFFER_SIZE"
    by simp
  ultimately show ?thesis
    by (simp add: fgets_def)
qed

lemma send_turn_text_line:
  assumes "NUL \<notin> set l" and "newline \<notin> set l" and "length l < BUFFER_SIZE - 1"
  shows "send_turn fd (l @ newline # rest) =
           (if l = ''exit'' then None else Some (Send fd l, rest))"
proof -
  let ?buf = "l @ newline # NUL # replicate (BUFFER_SIZE - length l - 2) NUL"
  from assms(1) have "cstring ?buf = l @ [newline]"
    using cstring_terminated [of "l @ [newline]"] by simp
  then have "strip_newline (cstring ?buf) = l"
    by (simp add: strip_newline_def)
  with send_turn_eq [OF fgets_text_line [OF assms(2,3)], of fd rest] show ?thesis
    by simp
qed

lemma send_loop_break: "send_turn fd inp = None \<Longrightarrow> send_loop fd inp sent = Some (sent @ [Close fd])"
  by (subst send_loop.simps) simp

lemma send_loop_write:
  "send_turn fd inp = Some (e, rest) \<Longrightarrow> send_loop fd inp sent = send_loop fd rest (sent @ [e])"
  by (subst send_loop.simps) simp

text \<open>
  C9 (as amended). For every input line of text that fits the buffer (no NUL byte, fewer
  than \<open>BUFFER_SIZE - 1\<close> bytes before its newline), the turn of the send loop that reads
  it strips the trailing newline; if what is left is \<^verbatim>\<open>"exit"\<close> the loop stops and the
  client closes the socket, and otherwise the client writes the stripped line to the socket
  and goes on with the rest of the input. On such lines followed by an \<^verbatim>\<open>exit\<close> line
  the client writes each line, stripped, in order, then closes the socket and returns.
\<close>

theorem send_loop_text_lines:
  assumes "NUL \<notin> set l" and "newline \<notin> set l" and "length l < BUFFER_SIZE - 1"
    and "\<forall>k \<in> set ls. NUL \<notin> set k \<and> newline \<notin> set k \<and> length k < BUFFER_SIZE - 1 \<and> k \<noteq> ''exit''"
  shows "send_turn fd (l @ newline # rest) =
           (if l = ''exit'' then None else Some (Send fd l, rest)) \<and>
         send_loop fd (l @ newline # rest) sent =
           (if l = ''exit'' then Some (sent @ [Close fd])
            else send_loop fd rest (sent @ [Send fd l])) \<and>
         send_loop fd (concat (map (\<lambda>k. k @ [newline]) ls) @ ''exit'' @ newline # rest) sent =
           Some (sent @ map (Send fd) ls @ [Close fd])"
proof -
  note turn = send_turn_text_line [OF assms(1-3), of fd rest]
  have "send_loop fd (l @ newline # rest) sent =
           (if l = ''exit'' then Some (sent @ [Close fd])
            else send_loop fd rest (sent @ [Send fd l]))"
  proof (cases "l = ''exit''")
    case True
    with turn have "send_turn fd (l @ newline # rest) = None" by simp
    then have "send_loop fd (l @ newline # rest) sent = Some (sent @ [Close fd])"
      by (rule send_loop_break)
    with True show ?thesis by simp
  next
    case False
    with turn have "send_turn fd (l @ newline # rest) = Some (Send fd l, rest)" by simp
    then have "send_loop fd (l @ newline # rest) sent = send_loop fd rest (sent @ [Send fd l])"
      by (rule send_loop_write)
    with False show ?thesis by simp
  qed
  moreover have "send_loop fd (concat (map (\<lambda>k. k @ [newline]) ls) @ ''exit'' @ newline # rest) sent =
           Some (sent @ map (Send fd) ls @ [Close fd])"
    using assms(4)
  proof (induction ls arbitrary: sent)
    case Nil
    have "send_turn fd (''exit'' @ newline # rest) = None"
      by (subst send_turn_text_line) (simp_all add: BUFFER_SIZE_def)
    then show ?case by (simp add: send_loop_break)
  next
    case (Cons k ls)
    let ?rest = "concat (map (\<lambda>k. k @ [newline]) ls) @ ''exit'' @ newline # rest"
    from Cons.prems have k: "NUL \<notin> set k" "newline \<notin> set k" "length k < BUFFER_SIZE - 1" "k \<noteq> ''exit''"
      by simp_all
    from Cons.prems have "send_loop fd ?rest (sent @ [Send fd k]) =
        Some ((sent @ [Send fd k]) @ map (Send fd) ls @ [Close fd])"
      by (intro Cons.IH) simp
    moreover from send_turn_text_line [OF k(1-3), of fd ?rest] k(4)
    have "send_loop fd (k @ newline # ?rest) sent = send_loop fd ?rest (sent @ [Send fd k])"
      by (simp add: send_loop_write)
    ultimately show ?case by simp
  qed
  ultimately show ?thesis using turn by simp
qed

theorem send_loop_text_lines_witness:
  "NUL \<notin> set ''hi'' \<and> newline \<notin> set ''hi'' \<and> length ''hi'' < BUFFER_SIZE - 1 \<and>
   NUL \<notin> set ''exit'' \<and> newline \<notin> set ''exit'' \<and> length ''exit'' < BUFFER_SIZE - 1 \<and>
   send_turn 3 (''hi'' @ newline # ''more'') = Some (Send 3 ''hi'', ''more'') \<and>
   send_turn 3 (''exit'' @ newline # ''more'') = None \<and>
   send_loop 3 (''exit'' @ newline # ''more'') [Send 3 ''hi''] = Some [Send 3 ''hi'', Close 3] \<and>
   send_loop 3 (concat (map (\<lambda>k. k @ [newline]) [''hi'', ''there'']) @ ''exit'' @ newline # ''more'') [] =
     Some [Send 3 ''hi'', Send 3 ''there'', Close 3]"
proof -
  have a: "NUL \<notin> set ''hi''" "newline \<notin> set ''hi''" "length ''hi'' < BUFFER_SIZE - 1"
    by (simp_all add: BUFFER_SIZE_def)
  have b: "NUL \<notin> set ''exit''" "newline \<notin> set ''exit''" "length ''exit'' < BUFFER_SIZE - 1"
    by (simp_all add: BUFFER_SIZE_def)
  have c: "\<forall>k \<in> set [''hi'', ''there'']. NUL \<notin> set k \<and> newline \<notin> set k \<and>
             length k < BUFFER_SIZE - 1 \<and> k \<noteq> ''exit''"
    by (simp add: BUFFER_SIZE_def)
  have d: "\<forall>k \<in> set ([] :: string list). NUL \<notin> set k \<and> newline \<notin> set k \<and>
             length k < BUFFER_SIZE - 1 \<and> k \<noteq> ''exit''"
    by simp
  from send_loop_text_lines [OF a c, of 3 "''more''" "[]"]
    send_loop_text_lines [OF b d, of 3 "''more''" "[Send 3 ''hi'']"]
    a b show ?thesis
    by simp
qed

lemma fgets_scan_full:
  "newline \<notin> set xs \<Longrightarrow> fgets_scan (length xs) (xs @ ys) = (xs, ys)"
  by (induction xs) auto

lemma fgets_full_buffer:
  assumes "newline \<notin> set xs" and "length xs = BUFFER_SIZE - 1"
  shows "fgets (replicate BUFFER_SIZE NUL) BUFFER_SIZE (xs @ ys) = (xs @ [NUL], ys)"
proof -
  from assms(2) have "xs \<noteq> []" by (auto simp: BUFFER_SIZE_def)
  moreover from assms have "fgets_scan (BUFFER_SIZE - 1) (xs @ ys) = (xs, ys)"
    using fgets_scan_full [of xs ys] by simp
  ultimately show ?thesis using assms(2)
    by (simp add: fgets_def)
qed

text \<open>
  As written, for every input line, the claim fails. The buffer is handled as a C string, so
  the line \<^verbatim>\<open>exit\<close>, NUL, \<^verbatim>\<open>x\<close> is not \<^verbatim>\<open>"exit"\<close> once its newline is stripped, and
  yet the client closes the socket. And \<^verbatim>\<open>fgets\<close> reads at most \<open>BUFFER_SIZE - 1\<close>
  bytes: of a line of 1023 letters followed by \<^verbatim>\<open>exit\<close> the client writes the letters,
  then reads the rest as a line of its own and closes the socket.
\<close>

theorem line_not_exit_closes_counterexample:
  "send_loop 3 (''exit'' @ NUL # ''x'' @ [newline]) [] = Some [Close 3] \<and>
   strip_newline (''exit'' @ NUL # ''x'' @ [newline]) = ''exit'' @ NUL # ''x'' \<and>
   send_loop 3 (replicate 1023 (CHR ''a'') @ ''exit'' @ [newline]) [] =
     Some [Send 3 (replicate 1023 (CHR ''a'')), Close 3]"
proof -
  have "fgets (replicate BUFFER_SIZE NUL) BUFFER_SIZE ((''exit'' @ NUL # ''x'') @ newline # []) =
      ((''exit'' @ NUL # ''x'') @ newline # NUL #
         replicate (BUFFER_SIZE - length (''exit'' @ NUL # ''x'') - 2) NUL, [])"
    by (rule fgets_text_line) (simp_all add: BUFFER_SIZE_def)
  from send_turn_eq [OF this, of 3]
  have "send_turn 3 (''exit'' @ NUL # ''x'' @ [newline]) = None"
    by (simp add: cstring_def strip_newline_def)
  then have one: "send_loop 3 (''exit'' @ NUL # ''x'' @ [newline]) [] = Some [Close 3]"
    by (simp add: send_loop_break)
  have two: "strip_newline (''exit'' @ NUL # ''x'' @ [newline]) = ''exit'' @ NUL # ''x''"
    by (simp add: strip_newline_def)
  let ?a = "replicate 1023 (CHR ''a'')"
  have "fgets (replicate BUFFER_SIZE NUL) BUFFER_SIZE (?a @ ''exit'' @ [newline]) =
      (?a @ [NUL], ''exit'' @ [newline])"
    by (rule fgets_full_buffer) (simp_all add: BUFFER_SIZE_def)
  from send_turn_eq [OF this, of 3]
  have "send_turn 3 (?a @ ''exit'' @ [newline]) = Some (Send 3 ?a, ''exit'' @ [newline])"
    using cstring_terminated [of ?a "[]"] length_replicate [of 1023 "CHR ''a''"]
    by (auto simp: strip_newline_def simp del: length_replicate)
  moreover have "send_turn 3 (''exit'' @ [newline]) = None"
    using send_turn_text_line [of "''exit''" 3 "[]"] by (simp add: BUFFER_SIZE_def)
  ultimately have "send_loop 3 (?a @ ''exit'' @ [newline]) [] = Some [Send 3 ?a, Close 3]"
    by (simp add: send_loop_write send_loop_break)
  with one two show ?thesis by simp
qed

end
